theory Spec2Isabelle
  imports
    Complex_Main
    "HOL-Library.Char_ord"
    "HOL-Library.List_Lexorder"
    "HOL-Library.Multiset"
    "HOL-Library.RBT"
begin

section \<open>IEEE doubles\<close>

text \<open>
  The amounts, the running sums and the candle values of the program are \<^verbatim>\<open>double\<close>s:
  IEEE 754 binary64 numbers, in the default rounding mode (to nearest, ties to even). A
  double is a finite number, an infinity or NaN. The two zeros are one value, \<open>Fin 0\<close>:
  they compare equal, and the one operation that tells them apart, a division by zero,
  is only ever applied by the program to a divisor that is a sum started at \<open>+0.0\<close>,
  which is never \<open>-0.0\<close>.
\<close>

datatype double = Fin real | PInf | NInf | NaN

text \<open>
  Rounding. \<open>roundEven q\<close> is the integer nearest to \<open>q\<close>, the even one of the two when
  \<open>q\<close> lies halfway. The doubles around a real \<open>x\<close> are the multiples of \<open>2 ^ ulpExp x\<close>:
  53 significant bits at the binary exponent of \<open>x\<close>, and multiples of \<open>2 ^ -1074\<close> in the
  subnormal range. \<open>fl x\<close> is the double an operation returns whose exact result is \<open>x\<close>:
  the nearest multiple, or an infinity once that reaches \<open>2 ^ 1024\<close>.
\<close>

definition roundEven :: "real \<Rightarrow> int" where
  "roundEven q =
     (let f = \<lfloor>q\<rfloor>; d = q - of_int f in
      if d < 1 / 2 then f else if 1 / 2 < d then f + 1 else if even f then f else f + 1)"

definition ulpExp :: "real \<Rightarrow> int" where
  "ulpExp x = max (\<lfloor>log 2 \<bar>x\<bar>\<rfloor> - 52) (- 1074)"

definition rawRound :: "real \<Rightarrow> real" where
  "rawRound x =
     (if x = 0 then 0
      else of_int (roundEven (x / 2 powr of_int (ulpExp x))) * 2 powr of_int (ulpExp x))"

definition fl :: "real \<Rightarrow> double" where
  "fl x =
     (let y = rawRound x in
      if 2 ^ 1024 \<le> y then PInf else if y \<le> - (2 ^ 1024) then NInf else Fin y)"

text \<open>The reals that are doubles: rounding leaves them as they are.\<close>

definition isDouble :: "real \<Rightarrow> bool" where
  "isDouble x \<longleftrightarrow> fl x = Fin x"

text \<open>
  The comparisons \<^verbatim>\<open><=\<close>, \<^verbatim>\<open><\<close> and \<^verbatim>\<open>==\<close> of two doubles: false whenever an
  operand is NaN. \<^verbatim>\<open>x > y\<close> is \<open>dgt x y\<close>.
\<close>

fun dle :: "double \<Rightarrow> double \<Rightarrow> bool" where
  "dle NaN _ = False"
| "dle _ NaN = False"
| "dle (Fin x) (Fin y) = (x \<le> y)"
| "dle NInf _ = True"
| "dle _ PInf = True"
| "dle _ _ = False"

fun dlt :: "double \<Rightarrow> double \<Rightarrow> bool" where
  "dlt NaN _ = False"
| "dlt _ NaN = False"
| "dlt (Fin x) (Fin y) = (x < y)"
| "dlt NInf NInf = False"
| "dlt PInf PInf = False"
| "dlt NInf _ = True"
| "dlt _ PInf = True"
| "dlt _ _ = False"

abbreviation dgt :: "double \<Rightarrow> double \<Rightarrow> bool" where
  "dgt x y \<equiv> dlt y x"

fun deq :: "double \<Rightarrow> double \<Rightarrow> bool" where
  "deq (Fin x) (Fin y) = (x = y)"
| "deq PInf PInf = True"
| "deq NInf NInf = True"
| "deq _ _ = False"

text \<open>
  The arithmetic: the exact result, rounded, on finite operands; the IEEE results on
  infinities and NaN. \<open>dsub\<close> is \<^verbatim>\<open>x - y\<close>, as the sum of \<open>x\<close> and the negated \<open>y\<close>.
\<close>

fun dneg :: "double \<Rightarrow> double" where
  "dneg (Fin x) = Fin (- x)"
| "dneg PInf = NInf"
| "dneg NInf = PInf"
| "dneg NaN = NaN"

fun dadd :: "double \<Rightarrow> double \<Rightarrow> double" where
  "dadd (Fin x) (Fin y) = fl (x + y)"
| "dadd NaN _ = NaN"
| "dadd _ NaN = NaN"
| "dadd PInf NInf = NaN"
| "dadd NInf PInf = NaN"
| "dadd PInf _ = PInf"
| "dadd _ PInf = PInf"
| "dadd NInf _ = NInf"
| "dadd _ NInf = NInf"

definition dsub :: "double \<Rightarrow> double \<Rightarrow> double" where
  "dsub x y = dadd x (dneg y)"

fun dmul :: "double \<Rightarrow> double \<Rightarrow> double" where
  "dmul (Fin x) (Fin y) = fl (x * y)"
| "dmul NaN _ = NaN"
| "dmul _ NaN = NaN"
| "dmul (Fin x) PInf = (if 0 < x then PInf else if x < 0 then NInf else NaN)"
| "dmul (Fin x) NInf = (if 0 < x then NInf else if x < 0 then PInf else NaN)"
| "dmul PInf (Fin y) = (if 0 < y then PInf else if y < 0 then NInf else NaN)"
| "dmul NInf (Fin y) = (if 0 < y then NInf else if y < 0 then PInf else NaN)"
| "dmul PInf PInf = PInf"
| "dmul NInf NInf = PInf"
| "dmul PInf NInf = NInf"
| "dmul NInf PInf = NInf"

fun ddiv :: "double \<Rightarrow> double \<Rightarrow> double" where
  "ddiv (Fin x) (Fin y) =
     (if y = 0 then (if 0 < x then PInf else if x < 0 then NInf else NaN) else fl (x / y))"
| "ddiv NaN _ = NaN"
| "ddiv _ NaN = NaN"
| "ddiv (Fin x) PInf = Fin 0"
| "ddiv (Fin x) NInf = Fin 0"
| "ddiv PInf (Fin y) = (if 0 \<le> y then PInf else NInf)"
| "ddiv NInf (Fin y) = (if 0 \<le> y then NInf else PInf)"
| "ddiv _ _ = NaN"

text \<open>A sum of doubles accumulated from \<open>0.0\<close>, left to right, rounding at every step.\<close>

definition dsum :: "double list \<Rightarrow> double" where
  "dsum xs = foldl dadd (Fin 0) xs"

text \<open>The number a finite double denotes (0 for the others, which denote none).\<close>

fun val :: "double \<Rightarrow> real" where
  "val (Fin x) = x"
| "val PInf = 0"
| "val NInf = 0"
| "val NaN = 0"

section \<open>Data model\<close>

text \<open>
  \<^verbatim>\<open>enum class OrderBookType{bid, ask, unknown, asksale, bidsale};\<close>
\<close>

datatype OrderBookType = bid | ask | unknown | asksale | bidsale

text \<open>
  \<^verbatim>\<open>class OrderBookEntry\<close>: the six public fields. The \<^verbatim>\<open>amount\<close>, which the
  program computes with, is a \<^typ>\<open>double\<close>. The \<^verbatim>\<open>price\<close> is only ever compared,
  copied and multiplied by an amount: it is held as the number it denotes, a finite
  double (\<open>isDouble\<close>), on which the comparisons are exact. Strings are \<^typ>\<open>string\<close>
  with the lexicographic order on bytes, which is the order of \<^verbatim>\<open>std::string\<close>.
  The field \<^verbatim>\<open>product\<close> is written \<open>product'\<close>.
\<close>

record OrderBookEntry =
  price :: real
  amount :: double
  timestamp :: string
  product' :: string
  orderType :: OrderBookType
  username :: string

text \<open>
  Modelled from the spec: the body of the constructor \<^verbatim>\<open>OrderBookEntry::OrderBookEntry\<close>
  is not among the sources, only its declaration, whose last parameter \<^verbatim>\<open>username\<close>
  has the default \<^verbatim>\<open>"dataset"\<close>. It is taken to store each argument in the field of
  the same name (the data model's record of six fields), as every caller expects.
\<close>

definition mkEntry :: "real \<Rightarrow> double \<Rightarrow> string \<Rightarrow> string \<Rightarrow> OrderBookType \<Rightarrow> OrderBookEntry" where
  "mkEntry p a ts pr ty =
     \<lparr>price = p, amount = a, timestamp = ts, product' = pr, orderType = ty,
      username = ''dataset''\<rparr>"

definition compareByTimestamp :: "OrderBookEntry \<Rightarrow> OrderBookEntry \<Rightarrow> bool" where
  "compareByTimestamp e1 e2 \<longleftrightarrow> timestamp e1 < timestamp e2"

definition compareByPriceAsc :: "OrderBookEntry \<Rightarrow> OrderBookEntry \<Rightarrow> bool" where
  "compareByPriceAsc e1 e2 \<longleftrightarrow> price e1 < price e2"

definition compareByPriceDesc :: "OrderBookEntry \<Rightarrow> OrderBookEntry \<Rightarrow> bool" where
  "compareByPriceDesc e1 e2 \<longleftrightarrow> price e1 > price e2"

text \<open>
  \<^verbatim>\<open>class OrderBook\<close> has one data member, the vector \<^verbatim>\<open>orders\<close>. A
  \<^verbatim>\<open>std::vector<OrderBookEntry>\<close> owns its elements by value, so a list of records
  has the same aliasing structure: two vectors never share an element.
\<close>

record OrderBook =
  orders :: "OrderBookEntry list"

section \<open>Order store\<close>

text \<open>
  \<^verbatim>\<open>OrderBook::getOrders\<close>: a copy of every stored entry whose type, product and
  timestamp equal the arguments, in storage order.
\<close>

definition getOrders :: "OrderBook \<Rightarrow> OrderBookType \<Rightarrow> string \<Rightarrow> string \<Rightarrow> OrderBookEntry list" where
  "getOrders book ty pr ts =
     filter (\<lambda>e. orderType e = ty \<and> product' e = pr \<and> timestamp e = ts) (orders book)"

text \<open>
  \<^verbatim>\<open>OrderBook::getKnownProducts\<close>: every product is stored as a key of a
  \<^verbatim>\<open>std::map<std::string,bool>\<close>, modelled by a red-black tree on the string order;
  the result lists the keys in the map's iteration order.
\<close>

definition getKnownProducts :: "OrderBook \<Rightarrow> string list" where
  "getKnownProducts book =
     RBT.keys (foldl (\<lambda>prodMap e. RBT.insert (product' e) True prodMap) RBT.empty (orders book))"

text \<open>
  \<^verbatim>\<open>std::sort(first, last, comp)\<close> is specified by its postcondition only: the range
  is a permutation of what it was, and no later element is \<open>cmp\<close>-less than an earlier
  one. The order of elements that \<open>cmp\<close> does not separate is not specified (only
  \<^verbatim>\<open>std::stable_sort\<close> keeps it), so the sort is a relation between the vector
  before and after, and every outcome the postcondition admits is an outcome of the model.
\<close>

definition std_sort :: "('a \<Rightarrow> 'a \<Rightarrow> bool) \<Rightarrow> 'a list \<Rightarrow> 'a list \<Rightarrow> bool" where
  "std_sort cmp xs ys \<longleftrightarrow> mset ys = mset xs \<and> sorted_wrt (\<lambda>x y. \<not> cmp y x) ys"

text \<open>
  The constructor \<^verbatim>\<open>OrderBook::OrderBook(file1, file2)\<close>: \<open>march\<close> and \<open>june\<close> are
  the entries \<^verbatim>\<open>CSVReader::readCSV\<close> returned for the two files.
\<close>

definition OrderBook_ctor :: "OrderBookEntry list \<Rightarrow> OrderBookEntry list \<Rightarrow> OrderBook \<Rightarrow> bool" where
  "OrderBook_ctor march june book \<longleftrightarrow>
     std_sort (\<lambda>a b. timestamp a < timestamp b) ([] @ march @ june) (orders book)"

text \<open>\<^verbatim>\<open>OrderBook::insertOrder\<close>: \<^verbatim>\<open>push_back\<close>, then \<^verbatim>\<open>std::sort\<close> of the whole vector.\<close>

definition insertOrder :: "OrderBook \<Rightarrow> OrderBookEntry \<Rightarrow> OrderBook \<Rightarrow> bool" where
  "insertOrder book order' book' \<longleftrightarrow>
     std_sort compareByTimestamp (orders book @ [order']) (orders book')"

text \<open>A sequence of \<^verbatim>\<open>insertOrder\<close> calls, one per entry of the list, in order.\<close>

inductive insertAll :: "OrderBook \<Rightarrow> OrderBookEntry list \<Rightarrow> OrderBook \<Rightarrow> bool" where
  insertAll_Nil: "insertAll book [] book"
| insertAll_Cons: "insertOrder book e book1 \<Longrightarrow> insertAll book1 es book' \<Longrightarrow> insertAll book (e # es) book'"

text \<open>
  What a call does: it returns a value, throws, or has undefined behaviour (here: reading
  \<^verbatim>\<open>orders[0]\<close> of an empty vector, which \<^verbatim>\<open>operator[]\<close> does not check). No
  function of \<^verbatim>\<open>OrderBook\<close> throws; \<open>EmptyStore\<close> is the error the specification
  names.
\<close>

datatype error = EmptyStore

datatype 'a outcome = Returns 'a | Throws error | Undefined

text \<open>\<^verbatim>\<open>OrderBook::getEarliestTime\<close>: \<^verbatim>\<open>return orders[0].timestamp;\<close>\<close>

definition getEarliestTime :: "OrderBook \<Rightarrow> string outcome" where
  "getEarliestTime book =
     (case orders book of [] \<Rightarrow> Undefined | e # _ \<Rightarrow> Returns (timestamp e))"

text \<open>
  The loop of \<^verbatim>\<open>OrderBook::getNextTime\<close>: \<^verbatim>\<open>next_timestamp\<close> starts as the empty
  string and is set, with a \<^verbatim>\<open>break\<close>, at the first entry whose timestamp is greater.
\<close>

fun nextScan :: "string \<Rightarrow> OrderBookEntry list \<Rightarrow> string" where
  "nextScan ts [] = []"
| "nextScan ts (e # es) = (if timestamp e > ts then timestamp e else nextScan ts es)"

definition getNextTime :: "OrderBook \<Rightarrow> string \<Rightarrow> string outcome" where
  "getNextTime book ts =
     (let next_timestamp = nextScan ts (orders book) in
      if next_timestamp = []
      then (case orders book of [] \<Rightarrow> Undefined | e # _ \<Rightarrow> Returns (timestamp e))
      else Returns next_timestamp)"

text \<open>
  The timestamps the driver visits: \<open>walk book n t\<close> lists \<open>t\<close> and the results of
  the next \<open>n - 1\<close> calls of \<^verbatim>\<open>getNextTime\<close>, each on the result of the one before.
\<close>

fun walk :: "OrderBook \<Rightarrow> nat \<Rightarrow> string \<Rightarrow> string list" where
  "walk book 0 t = []"
| "walk book (Suc n) t =
     t # (case getNextTime book t of Returns t' \<Rightarrow> walk book n t' | _ \<Rightarrow> [])"

definition storedTimes :: "OrderBook \<Rightarrow> string set" where
  "storedTimes book = timestamp ` set (orders book)"

section \<open>Matching engine\<close>

text \<open>
  The \<^verbatim>\<open>sale\<close> entry built inside the inner loop of
  \<^verbatim>\<open>OrderBook::matchAsksToBids\<close> for the ask \<open>a\<close> and the bid \<open>b\<close>, before its
  amount is set: the ask's price, amount \<open>0.0\<close>, type \<^verbatim>\<open>asksale\<close>; then the two
  \<^verbatim>\<open>"simuser"\<close> tests, the bid's first.
\<close>

definition newSale :: "string \<Rightarrow> string \<Rightarrow> OrderBookEntry \<Rightarrow> OrderBookEntry \<Rightarrow> OrderBookEntry" where
  "newSale pr ts a b =
     (let sale = mkEntry (price a) (Fin 0) ts pr asksale;
          sale = (if username b = ''simuser''
                  then sale\<lparr>username := ''simuser'', orderType := bidsale\<rparr> else sale);
          sale = (if username a = ''simuser''
                  then sale\<lparr>username := ''simuser'', orderType := asksale\<rparr> else sale)
      in sale)"

text \<open>
  The inner loop \<^verbatim>\<open>for (auto& bid : bids)\<close> for one ask \<open>a\<close>. The ask and the bids are
  references into the working vectors, so the loop returns the ask and the bids as it
  leaves them, and the sales it pushed. A \<^verbatim>\<open>break\<close> returns with the remaining bids
  untouched; in the third branch a bid whose amount is not positive changes nothing.
  The tests and the two subtractions \<^verbatim>\<open>-=\<close> are those of doubles.
\<close>

fun scanBids :: "string \<Rightarrow> string \<Rightarrow> OrderBookEntry \<Rightarrow> OrderBookEntry list \<Rightarrow>
    OrderBookEntry \<times> OrderBookEntry list \<times> OrderBookEntry list" where
  "scanBids pr ts a [] = (a, [], [])"
| "scanBids pr ts a (b # bs) =
     (if price b \<ge> price a then
        (if deq (amount b) (amount a) then
           (a, b\<lparr>amount := Fin 0\<rparr> # bs, [(newSale pr ts a b)\<lparr>amount := amount a\<rparr>])
         else if dgt (amount b) (amount a) then
           (a, b\<lparr>amount := dsub (amount b) (amount a)\<rparr> # bs,
            [(newSale pr ts a b)\<lparr>amount := amount a\<rparr>])
         else if dgt (amount b) (Fin 0) then
           (case scanBids pr ts (a\<lparr>amount := dsub (amount a) (amount b)\<rparr>) bs of
              (a', bs', sales) \<Rightarrow>
                (a', b\<lparr>amount := Fin 0\<rparr> # bs', (newSale pr ts a b)\<lparr>amount := amount b\<rparr> # sales))
         else
           (case scanBids pr ts a bs of (a', bs', sales) \<Rightarrow> (a', b # bs', sales)))
      else
        (case scanBids pr ts a bs of (a', bs', sales) \<Rightarrow> (a', b # bs', sales)))"

text \<open>
  The outer loop \<^verbatim>\<open>for (auto& ask : asks)\<close>: the working asks and bids as the loop
  leaves them, and all sales in the order they were pushed.
\<close>

fun matchLoop :: "string \<Rightarrow> string \<Rightarrow> OrderBookEntry list \<Rightarrow> OrderBookEntry list \<Rightarrow>
    OrderBookEntry list \<times> OrderBookEntry list \<times> OrderBookEntry list" where
  "matchLoop pr ts [] bids = ([], bids, [])"
| "matchLoop pr ts (a # as) bids =
     (case scanBids pr ts a bids of
        (a', bids', sales) \<Rightarrow>
          (case matchLoop pr ts as bids' of
             (as', bids'', sales') \<Rightarrow> (a' # as', bids'', sales @ sales')))"

text \<open>
  \<^verbatim>\<open>OrderBook::matchAsksToBids\<close>, as a relation between the book before the call, the
  arguments, and the pair of the returned sales and the book after the call. The asks and
  bids are the vectors \<^verbatim>\<open>getOrders\<close> returned, local to the call; \<open>asks'\<close> and
  \<open>bids'\<close> are what the two calls of \<^verbatim>\<open>std::sort\<close> leave in them. No statement of the
  function writes to the member \<^verbatim>\<open>orders\<close>. The lines the function prints to
  \<^verbatim>\<open>std::cout\<close> are left out.
\<close>

inductive matchAsksToBids :: "OrderBook \<Rightarrow> string \<Rightarrow> string \<Rightarrow> OrderBookEntry list \<times> OrderBook \<Rightarrow> bool" where
  no_liquidity:
    "getOrders book ask pr ts = [] \<or> getOrders book bid pr ts = [] \<Longrightarrow>
     matchAsksToBids book pr ts ([], book)"
| matched:
    "getOrders book ask pr ts \<noteq> [] \<Longrightarrow> getOrders book bid pr ts \<noteq> [] \<Longrightarrow>
     std_sort compareByPriceAsc (getOrders book ask pr ts) asks' \<Longrightarrow>
     std_sort compareByPriceDesc (getOrders book bid pr ts) bids' \<Longrightarrow>
     matchLoop pr ts asks' bids' = (asks'', bids'', sales) \<Longrightarrow>
     matchAsksToBids book pr ts (sales, book)"

text \<open>
  The pairs the sales come from: the same two loops, listing for every sale pushed the ask
  and the bid (as they are at that moment) that the sale was built from.
\<close>

fun scanPairs :: "OrderBookEntry \<Rightarrow> OrderBookEntry list \<Rightarrow> (OrderBookEntry \<times> OrderBookEntry) list" where
  "scanPairs a [] = []"
| "scanPairs a (b # bs) =
     (if price b \<ge> price a then
        (if deq (amount b) (amount a) then [(a, b)]
         else if dgt (amount b) (amount a) then [(a, b)]
         else if dgt (amount b) (Fin 0) then
           (a, b) # scanPairs (a\<lparr>amount := dsub (amount a) (amount b)\<rparr>) bs
         else scanPairs a bs)
      else scanPairs a bs)"

fun matchPairs :: "string \<Rightarrow> string \<Rightarrow> OrderBookEntry list \<Rightarrow> OrderBookEntry list \<Rightarrow>
    (OrderBookEntry \<times> OrderBookEntry) list" where
  "matchPairs pr ts [] bids = []"
| "matchPairs pr ts (a # as) bids =
     scanPairs a bids @ matchPairs pr ts as (fst (snd (scanBids pr ts a bids)))"

text \<open>
  The sale of a pair: the new sale entry with the smaller of the two amounts (the ask's,
  unless the bid's is less or one of them is NaN).
\<close>

definition dmin :: "double \<Rightarrow> double \<Rightarrow> double" where
  "dmin x y = (if dle x y then x else y)"

definition saleOf :: "string \<Rightarrow> string \<Rightarrow> OrderBookEntry \<times> OrderBookEntry \<Rightarrow> OrderBookEntry" where
  "saleOf pr ts ab = (newSale pr ts (fst ab) (snd ab))\<lparr>amount := dmin (amount (fst ab)) (amount (snd ab))\<rparr>"

text \<open>The total quantity of a list of entries: the sum of the numbers their amounts denote.\<close>

definition totalAmount :: "OrderBookEntry list \<Rightarrow> real" where
  "totalAmount es = sum_list (map (\<lambda>e. val (amount e)) es)"

section \<open>Matching engine over an explicit memory\<close>

text \<open>
  The same function with the memory written out, for the claim about what the call
  writes. An entry lives in a cell; a \<^verbatim>\<open>std::vector<OrderBookEntry>\<close> is the list of
  the cells of its elements; a reference (\<^verbatim>\<open>OrderBookEntry& e\<close>, \<^verbatim>\<open>auto& ask\<close>,
  \<^verbatim>\<open>auto& bid\<close>) is the address of a cell. The memory holds the cells, the first
  address not yet used, and the member \<^verbatim>\<open>orders\<close> of the book.
\<close>

type_synonym addr = nat

record memory =
  cells :: "addr \<Rightarrow> OrderBookEntry"
  nextAddr :: addr
  ordersV :: "addr list"

text \<open>The book a memory holds, and the condition that its cells are in use.\<close>

definition bookOf :: "memory \<Rightarrow> OrderBook" where
  "bookOf m = \<lparr>orders = map (cells m) (ordersV m)\<rparr>"

definition allocated :: "memory \<Rightarrow> bool" where
  "allocated m \<longleftrightarrow> (\<forall>p\<in>set (ordersV m). p < nextAddr m)"

text \<open>
  \<^verbatim>\<open>orders_sub.push_back(e)\<close> copy-constructs \<open>e\<close> into a cell of the local vector,
  one that was not in use; the result is that cell.
\<close>

definition push_back :: "memory \<Rightarrow> OrderBookEntry \<Rightarrow> addr \<times> memory" where
  "push_back m e = (nextAddr m, m\<lparr>cells := (cells m)(nextAddr m := e), nextAddr := Suc (nextAddr m)\<rparr>)"

text \<open>
  \<^verbatim>\<open>OrderBook::getOrders\<close>: the loop over the cells of \<^verbatim>\<open>orders\<close>; the result is the
  local vector \<^verbatim>\<open>orders_sub\<close>.
\<close>

fun getOrdersH :: "memory \<Rightarrow> addr list \<Rightarrow> OrderBookType \<Rightarrow> string \<Rightarrow> string \<Rightarrow> addr list \<times> memory" where
  "getOrdersH m [] ty pr ts = ([], m)"
| "getOrdersH m (p # ps) ty pr ts =
     (let e = cells m p in
      if orderType e = ty \<and> product' e = pr \<and> timestamp e = ts then
        (case push_back m e of
           (q, m1) \<Rightarrow> (case getOrdersH m1 ps ty pr ts of (v, m2) \<Rightarrow> (q # v, m2)))
      else getOrdersH m ps ty pr ts)"

text \<open>
  \<^verbatim>\<open>std::sort\<close> on a vector rearranges the contents of the vector's cells and writes
  nowhere else.
\<close>

definition std_sortH :: "(OrderBookEntry \<Rightarrow> OrderBookEntry \<Rightarrow> bool) \<Rightarrow> addr list \<Rightarrow> memory \<Rightarrow> memory \<Rightarrow> bool" where
  "std_sortH cmp v m m' \<longleftrightarrow>
     nextAddr m' = nextAddr m \<and> ordersV m' = ordersV m \<and>
     (\<forall>p. p \<notin> set v \<longrightarrow> cells m' p = cells m p) \<and>
     std_sort cmp (map (cells m) v) (map (cells m') v)"

text \<open>An assignment to the \<^verbatim>\<open>amount\<close> of the entry in cell \<open>p\<close>.\<close>

definition setAmount :: "memory \<Rightarrow> addr \<Rightarrow> double \<Rightarrow> memory" where
  "setAmount m p x = m\<lparr>cells := (cells m)(p := (cells m p)\<lparr>amount := x\<rparr>)\<rparr>"

text \<open>
  The two loops, with \<open>pa\<close> and \<open>pb\<close> the cells that \<^verbatim>\<open>ask\<close> and \<^verbatim>\<open>bid\<close> refer to.
  The sales are returned by value.
\<close>

fun scanBidsH :: "string \<Rightarrow> string \<Rightarrow> addr \<Rightarrow> addr list \<Rightarrow> memory \<Rightarrow> memory \<times> OrderBookEntry list" where
  "scanBidsH pr ts pa [] m = (m, [])"
| "scanBidsH pr ts pa (pb # pbs) m =
     (let a = cells m pa; b = cells m pb in
      if price b \<ge> price a then
        (if deq (amount b) (amount a) then
           (setAmount m pb (Fin 0), [(newSale pr ts a b)\<lparr>amount := amount a\<rparr>])
         else if dgt (amount b) (amount a) then
           (setAmount m pb (dsub (amount b) (amount a)),
            [(newSale pr ts a b)\<lparr>amount := amount a\<rparr>])
         else if dgt (amount b) (Fin 0) then
           (case scanBidsH pr ts pa pbs
                   (setAmount (setAmount m pa (dsub (amount a) (amount b))) pb (Fin 0)) of
              (m', sales) \<Rightarrow> (m', (newSale pr ts a b)\<lparr>amount := amount b\<rparr> # sales))
         else scanBidsH pr ts pa pbs m)
      else scanBidsH pr ts pa pbs m)"

fun matchLoopH :: "string \<Rightarrow> string \<Rightarrow> addr list \<Rightarrow> addr list \<Rightarrow> memory \<Rightarrow> memory \<times> OrderBookEntry list" where
  "matchLoopH pr ts [] pbs m = (m, [])"
| "matchLoopH pr ts (pa # pas) pbs m =
     (case scanBidsH pr ts pa pbs m of
        (m1, sales) \<Rightarrow>
          (case matchLoopH pr ts pas pbs m1 of (m2, sales') \<Rightarrow> (m2, sales @ sales')))"

text \<open>
  \<^verbatim>\<open>OrderBook::matchAsksToBids\<close> over the memory: the two calls of \<^verbatim>\<open>getOrders\<close>, the
  test for an empty side, the two sorts of the local vectors, the loops.
\<close>

inductive matchAsksToBidsH :: "memory \<Rightarrow> string \<Rightarrow> string \<Rightarrow> OrderBookEntry list \<times> memory \<Rightarrow> bool" where
  no_liquidityH:
    "getOrdersH m (ordersV m) ask pr ts = (asksV, m1) \<Longrightarrow>
     getOrdersH m1 (ordersV m1) bid pr ts = (bidsV, m2) \<Longrightarrow>
     asksV = [] \<or> bidsV = [] \<Longrightarrow>
     matchAsksToBidsH m pr ts ([], m2)"
| matchedH:
    "getOrdersH m (ordersV m) ask pr ts = (asksV, m1) \<Longrightarrow>
     getOrdersH m1 (ordersV m1) bid pr ts = (bidsV, m2) \<Longrightarrow>
     asksV \<noteq> [] \<Longrightarrow> bidsV \<noteq> [] \<Longrightarrow>
     std_sortH compareByPriceAsc asksV m2 m3 \<Longrightarrow>
     std_sortH compareByPriceDesc bidsV m3 m4 \<Longrightarrow>
     matchLoopH pr ts asksV bidsV m4 = (m5, sales) \<Longrightarrow>
     matchAsksToBidsH m pr ts (sales, m5)"

section \<open>Analytics engine\<close>

text \<open>\<^verbatim>\<open>class Candlestick\<close>: the timestamp and the four doubles.\<close>

record Candlestick =
  timestampC :: string
  openC :: double
  highC :: double
  lowC :: double
  closeC :: double

text \<open>
  \<^verbatim>\<open>CSVReader::getAllTimestamps\<close>: the timestamp of every entry of every file goes into
  a \<^verbatim>\<open>std::set<std::string>\<close>, which is then copied to a vector in its iteration
  order. \<open>files\<close> are the entries \<^verbatim>\<open>readCSV\<close> returns for the files the function
  lists: the two files \<^verbatim>\<open>20200317.csv\<close> and \<^verbatim>\<open>20200601.csv\<close>, which are
  also the two files the driver constructs its \<^verbatim>\<open>OrderBook\<close> from.
\<close>

definition getAllTimestamps :: "OrderBookEntry list list \<Rightarrow> string list" where
  "getAllTimestamps files =
     RBT.keys (foldl (\<lambda>uniq entries. foldl (\<lambda>uniq e. RBT.insert (timestamp e) () uniq) uniq entries)
                 RBT.empty files)"

text \<open>
  \<^verbatim>\<open>OrderBook::getHighPrice\<close> and \<^verbatim>\<open>OrderBook::getLowPrice\<close>: both start from
  \<^verbatim>\<open>orders[0].price\<close>, which an empty vector does not have.
\<close>

definition getHighPrice :: "OrderBookEntry list \<Rightarrow> real outcome" where
  "getHighPrice es =
     (case es of
        [] \<Rightarrow> Undefined
      | e0 # _ \<Rightarrow>
          Returns (foldl (\<lambda>maxPrice e. if price e > maxPrice then price e else maxPrice) (price e0) es))"

definition getLowPrice :: "OrderBookEntry list \<Rightarrow> real outcome" where
  "getLowPrice es =
     (case es of
        [] \<Rightarrow> Undefined
      | e0 # _ \<Rightarrow>
          Returns (foldl (\<lambda>minPrice e. if price e < minPrice then price e else minPrice) (price e0) es))"

text \<open>
  One iteration of the loop of \<^verbatim>\<open>OrderBook::getCandlestickData\<close> over the timestamps.
  The state is the pair of \<^verbatim>\<open>candles\<close> and \<^verbatim>\<open>prevClose\<close>. The two running sums
  \<^verbatim>\<open>totVal += e.price * e.amount\<close> and \<^verbatim>\<open>totAmt += e.amount\<close> and the quotient
  \<^verbatim>\<open>totVal / totAmt\<close> are computed in doubles, each operation rounding its result.
\<close>

definition candleStep :: "OrderBook \<Rightarrow> OrderBookType \<Rightarrow> string \<Rightarrow>
    (Candlestick list \<times> double) outcome \<Rightarrow> string \<Rightarrow> (Candlestick list \<times> double) outcome" where
  "candleStep book side pr st ts =
     (case st of
        Returns (candles, prevClose) \<Rightarrow>
          (let entries = getOrders book side pr ts in
           if entries = [] then Returns (candles, prevClose)
           else
             (case getHighPrice entries of
                Returns high \<Rightarrow>
                  (case getLowPrice entries of
                     Returns low \<Rightarrow>
                       (let (totVal, totAmt) =
                              foldl (\<lambda>(totVal, totAmt) e.
                                       (dadd totVal (dmul (Fin (price e)) (amount e)),
                                        dadd totAmt (amount e)))
                                (Fin 0, Fin 0) entries;
                            close = ddiv totVal totAmt;
                            open' = (if candles = [] then close else prevClose)
                        in Returns
                             (candles @
                                [\<lparr>timestampC = ts, openC = open', highC = Fin high, lowC = Fin low,
                                  closeC = close\<rparr>],
                              close))
                   | Throws x \<Rightarrow> Throws x
                   | Undefined \<Rightarrow> Undefined)
              | Throws x \<Rightarrow> Throws x
              | Undefined \<Rightarrow> Undefined))
      | Throws x \<Rightarrow> Throws x
      | Undefined \<Rightarrow> Undefined)"

definition getCandlestickData :: "OrderBookEntry list list \<Rightarrow> OrderBook \<Rightarrow> OrderBookType \<Rightarrow> string \<Rightarrow>
    Candlestick list outcome" where
  "getCandlestickData files book side pr =
     (case foldl (candleStep book side pr) (Returns ([], Fin 0)) (getAllTimestamps files) of
        Returns (candles, prevClose) \<Rightarrow> Returns candles
      | Throws x \<Rightarrow> Throws x
      | Undefined \<Rightarrow> Undefined)"

text \<open>
  The candlestick series in the specification's words. The volume-weighted average price
  of a list of orders is \<open>sum(price * amount) / sum(amount)\<close>, evaluated in doubles: the
  two sums over the orders in their order, then the quotient; the timestamps that get a
  candle are those of the timeline with at least one matching order; the candle of such a
  timestamp has the greatest and the least matching price, the average as its close, and
  as its open the close of the candle before it, or its own close when it is the first.
\<close>

definition vwap_spec :: "OrderBookEntry list \<Rightarrow> double" where
  "vwap_spec es =
     ddiv (dsum (map (\<lambda>e. dmul (Fin (price e)) (amount e)) es)) (dsum (map (\<lambda>e. amount e) es))"

definition candlesticks_spec :: "string list \<Rightarrow> OrderBook \<Rightarrow> OrderBookType \<Rightarrow> string \<Rightarrow> Candlestick list" where
  "candlesticks_spec stamps book side pr =
     (let emitted = filter (\<lambda>ts. getOrders book side pr ts \<noteq> []) stamps;
          close = (\<lambda>ts. vwap_spec (getOrders book side pr ts))
      in map (\<lambda>i.
            \<lparr>timestampC = emitted ! i,
             openC = (if i = 0 then close (emitted ! 0) else close (emitted ! (i - 1))),
             highC = Fin (Max (price ` set (getOrders book side pr (emitted ! i)))),
             lowC = Fin (Min (price ` set (getOrders book side pr (emitted ! i)))),
             closeC = close (emitted ! i)\<rparr>)
          [0..<length emitted])"

text \<open>
  For the proofs about the loop: the candle of a timestamp, given its open; and the candles
  of a list of timestamps with matching orders, given the close before the first, if any.
\<close>

definition candleAt :: "OrderBook \<Rightarrow> OrderBookType \<Rightarrow> string \<Rightarrow> double \<Rightarrow> string \<Rightarrow> Candlestick" where
  "candleAt book side pr opn ts =
     \<lparr>timestampC = ts, openC = opn,
      highC = Fin (Max (price ` set (getOrders book side pr ts))),
      lowC = Fin (Min (price ` set (getOrders book side pr ts))),
      closeC = vwap_spec (getOrders book side pr ts)\<rparr>"

fun chain :: "OrderBook \<Rightarrow> OrderBookType \<Rightarrow> string \<Rightarrow> double option \<Rightarrow> string list \<Rightarrow> Candlestick list" where
  "chain book side pr prev [] = []"
| "chain book side pr prev (t # ts) =
     candleAt book side pr
       (case prev of None \<Rightarrow> vwap_spec (getOrders book side pr t) | Some p \<Rightarrow> p) t #
     chain book side pr (Some (vwap_spec (getOrders book side pr t))) ts"

section \<open>Specification-side notions\<close>

text \<open>
  A working copy of an entry: the loops change nothing of an entry but its amount.
\<close>

definition copyOf :: "OrderBookEntry \<Rightarrow> OrderBookEntry \<Rightarrow> bool" where
  "copyOf e' e \<longleftrightarrow> e' = e\<lparr>amount := amount e'\<rparr>"

text \<open>
  The data model's invariant on a list of entries: every amount is a finite number, and
  none is negative.
\<close>

definition nonneg :: "OrderBookEntry list \<Rightarrow> bool" where
  "nonneg es \<longleftrightarrow> (\<forall>e\<in>set es. dle (Fin 0) (amount e) \<and> dlt (amount e) PInf)"

text \<open>
  Amounts on a grid: the non-negative multiples \<open>n * 2 ^ k\<close> of one power of two with
  \<open>n < 2 ^ 53\<close> (for \<open>k = 0\<close>, the integers below \<open>2 ^ 53\<close>; for \<open>k = -10\<close>, the
  multiples of \<open>1/1024\<close> below \<open>2 ^ 43\<close>). All of them are doubles, and so is the
  difference of any two of them.
\<close>

definition onGrid :: "int \<Rightarrow> double \<Rightarrow> bool" where
  "onGrid k d \<longleftrightarrow>
     - 1074 \<le> k \<and> k \<le> 971 \<and> (\<exists>n::nat. n < 2 ^ 53 \<and> d = Fin (of_nat n * 2 powr of_int k))"

definition gridded :: "int \<Rightarrow> OrderBookEntry list \<Rightarrow> bool" where
  "gridded k es \<longleftrightarrow> (\<forall>e\<in>set es. onGrid k (amount e))"

text \<open>
  The two running sums of a candle are exact on a list of orders: no product and no
  partial sum was rounded, so the doubles \<^verbatim>\<open>totVal\<close> and \<^verbatim>\<open>totAmt\<close> are the sums
  of the numbers.
\<close>

definition exactSums :: "OrderBookEntry list \<Rightarrow> bool" where
  "exactSums es \<longleftrightarrow>
     dsum (map (\<lambda>e. dmul (Fin (price e)) (amount e)) es) = Fin (\<Sum>e\<leftarrow>es. price e * val (amount e)) \<and>
     dsum (map (\<lambda>e. amount e) es) = Fin (\<Sum>e\<leftarrow>es. val (amount e))"

text \<open>
  The specification's condition "one side's total quantity is fully consumable by the
  other side within the price constraint", written out: a fill plan assigns a quantity
  to pairs (index of an ask, index of a bid) whose bid price is not below the ask price,
  and fills no order beyond its amount; a side is fully consumable when some plan fills
  every order of that side completely.
\<close>

definition askFill :: "(nat \<times> nat \<times> real) list \<Rightarrow> nat \<Rightarrow> real" where
  "askFill plan i = sum_list (map (\<lambda>(i', j, q). if i' = i then q else 0) plan)"

definition bidFill :: "(nat \<times> nat \<times> real) list \<Rightarrow> nat \<Rightarrow> real" where
  "bidFill plan j = sum_list (map (\<lambda>(i, j', q). if j' = j then q else 0) plan)"

definition fillPlan :: "OrderBookEntry list \<Rightarrow> OrderBookEntry list \<Rightarrow> (nat \<times> nat \<times> real) list \<Rightarrow> bool" where
  "fillPlan asks bids plan \<longleftrightarrow>
     (\<forall>(i, j, q)\<in>set plan. i < length asks \<and> j < length bids \<and> 0 \<le> q \<and> price (bids ! j) \<ge> price (asks ! i)) \<and>
     (\<forall>i<length asks. askFill plan i \<le> val (amount (asks ! i))) \<and>
     (\<forall>j<length bids. bidFill plan j \<le> val (amount (bids ! j)))"

definition fullyConsumable_spec :: "OrderBookEntry list \<Rightarrow> OrderBookEntry list \<Rightarrow> bool" where
  "fullyConsumable_spec asks bids \<longleftrightarrow>
     (\<exists>plan. fillPlan asks bids plan \<and>
        ((\<forall>i<length asks. askFill plan i = val (amount (asks ! i))) \<or>
         (\<forall>j<length bids. bidFill plan j = val (amount (bids ! j)))))"

text \<open>Every distinct stored timestamp, once, in ascending order.\<close>

definition timeline :: "OrderBook \<Rightarrow> string list" where
  "timeline book = sorted_list_of_set (storedTimes book)"

text \<open>
  The specification's "ties broken by insertion order (stable sort)": entries with equal
  timestamps stand in \<open>ys\<close> in the order they have in \<open>xs\<close>.
\<close>

definition keepsTieOrder_spec :: "OrderBookEntry list \<Rightarrow> OrderBookEntry list \<Rightarrow> bool" where
  "keepsTieOrder_spec xs ys \<longleftrightarrow>
     (\<forall>t. filter (\<lambda>e. timestamp e = t) ys = filter (\<lambda>e. timestamp e = t) xs)"

section \<open>Example data\<close>

text \<open>
  The round-trip example: one ask of 1 at 100 and one bid of 2 at 105, same product and
  timestamp, and the sale the match returns.
\<close>

definition ask1 :: OrderBookEntry where
  "ask1 = mkEntry 100 (Fin 1) ''2020/03/17 10:00:00.000000'' ''ETH/BTC'' ask"

definition bid1 :: OrderBookEntry where
  "bid1 = mkEntry 105 (Fin 2) ''2020/03/17 10:00:00.000000'' ''ETH/BTC'' bid"

definition book1 :: OrderBook where
  "book1 = \<lparr>orders = [ask1, bid1]\<rparr>"

definition sale1 :: OrderBookEntry where
  "sale1 = mkEntry 100 (Fin 1) ''2020/03/17 10:00:00.000000'' ''ETH/BTC'' asksale"

text \<open>
  Two asks (at 1 and at 5) and two bids (at 5 and at 1), each of amount 1: the cheaper ask
  takes the higher bid, and nothing is left that the dearer ask can trade with.
\<close>

definition ask2a :: OrderBookEntry where "ask2a = mkEntry 1 (Fin 1) ''t'' ''p'' ask"

definition ask2b :: OrderBookEntry where "ask2b = mkEntry 5 (Fin 1) ''t'' ''p'' ask"

definition bid2a :: OrderBookEntry where "bid2a = mkEntry 5 (Fin 1) ''t'' ''p'' bid"

definition bid2b :: OrderBookEntry where "bid2b = mkEntry 1 (Fin 1) ''t'' ''p'' bid"

definition book2 :: OrderBook where "book2 = \<lparr>orders = [ask2a, ask2b, bid2a, bid2b]\<rparr>"

definition sale2 :: OrderBookEntry where "sale2 = mkEntry 1 (Fin 1) ''t'' ''p'' asksale"

text \<open>
  The same two asks with a bid of 3 at 5 and the bid of 1 at 1: the bid at 5 is priced for
  both asks and holds more than their total, so both asks are filled from it.
\<close>

definition bid2c :: OrderBookEntry where "bid2c = mkEntry 5 (Fin 3) ''t'' ''p'' bid"

definition book2c :: OrderBook where "book2c = \<lparr>orders = [ask2a, ask2b, bid2c, bid2b]\<rparr>"

definition sale2c :: OrderBookEntry where "sale2c = mkEntry 5 (Fin 1) ''t'' ''p'' asksale"

text \<open>
  One ask of \<open>2 ^ 53\<close> at 1, a bid of \<open>1/2\<close> at 3 and a bid of \<open>2 ^ 53\<close> at 2: after the
  first sale the ask's amount \<open>2 ^ 53 - 1/2\<close> is rounded back to \<open>2 ^ 53\<close>, and the
  second sale takes all of it again.
\<close>

definition ask2r :: OrderBookEntry where "ask2r = mkEntry 1 (Fin (2 ^ 53)) ''t'' ''p'' ask"

definition bid2r :: OrderBookEntry where "bid2r = mkEntry 3 (Fin (1 / 2)) ''t'' ''p'' bid"

definition bid2s :: OrderBookEntry where "bid2s = mkEntry 2 (Fin (2 ^ 53)) ''t'' ''p'' bid"

definition book2r :: OrderBook where "book2r = \<lparr>orders = [ask2r, bid2r, bid2s]\<rparr>"

definition sale2r :: OrderBookEntry where "sale2r = mkEntry 1 (Fin (1 / 2)) ''t'' ''p'' asksale"

definition sale2s :: OrderBookEntry where "sale2s = mkEntry 1 (Fin (2 ^ 53)) ''t'' ''p'' asksale"

text \<open>An ask and a bid of amount 0 at the same product and timestamp, the bid priced higher.\<close>

definition ask3 :: OrderBookEntry where "ask3 = mkEntry 10 (Fin 0) ''t'' ''p'' ask"

definition bid3 :: OrderBookEntry where "bid3 = mkEntry 12 (Fin 0) ''t'' ''p'' bid"

definition book3 :: OrderBook where "book3 = \<lparr>orders = [bid3, ask3]\<rparr>"

definition sale3 :: OrderBookEntry where "sale3 = mkEntry 10 (Fin 0) ''t'' ''p'' asksale"

text \<open>A sorted store with three distinct timestamps, the first held by two entries.\<close>

definition e5a :: OrderBookEntry where "e5a = mkEntry 10 (Fin 1) ''1'' ''p'' ask"

definition e5b :: OrderBookEntry where "e5b = mkEntry 11 (Fin 1) ''1'' ''p'' bid"

definition e5c :: OrderBookEntry where "e5c = mkEntry 12 (Fin 1) ''2'' ''p'' ask"

definition e5d :: OrderBookEntry where "e5d = mkEntry 13 (Fin 1) ''3'' ''p'' bid"

definition book5 :: OrderBook where "book5 = \<lparr>orders = [e5a, e5b, e5c, e5d]\<rparr>"

text \<open>The store with no records.\<close>

definition emptyBook :: OrderBook where "emptyBook = \<lparr>orders = []\<rparr>"

text \<open>
  A store with one entry, a second entry with the same timestamp, and the store after
  the second is inserted.
\<close>

definition e7a :: OrderBookEntry where "e7a = mkEntry 1 (Fin 1) ''t'' ''p'' ask"

definition e7b :: OrderBookEntry where "e7b = mkEntry 2 (Fin 1) ''t'' ''p'' ask"

definition book7 :: OrderBook where "book7 = \<lparr>orders = [e7a]\<rparr>"

definition book7ab :: OrderBook where "book7ab = \<lparr>orders = [e7a, e7b]\<rparr>"

text \<open>
  Seventeen records with one timestamp, told apart by their prices 0 to 16. \<open>book16\<close>
  holds the first sixteen in the order of their insertion; \<open>book17\<close> holds all
  seventeen in the order the \<^verbatim>\<open>std::sort\<close> of libstdc++ leaves them in when the
  seventeenth is inserted into \<open>book16\<close>: a vector of more than 16 elements is
  partitioned, the median-of-three step swaps the first record with the middle one, and
  the partition swaps the records before the pivot position with those after it in
  pairs.
\<close>

definition rec17 :: "nat \<Rightarrow> OrderBookEntry" where
  "rec17 i = mkEntry (of_nat i) (Fin 1) ''t'' ''p'' ask"

definition book16 :: OrderBook where
  "book16 = \<lparr>orders = map rec17 [0, 1, 2, 3, 4, 5, 6, 7, 8, 9, 10, 11, 12, 13, 14, 15]\<rparr>"

definition book17 :: OrderBook where
  "book17 = \<lparr>orders = map rec17 [8, 16, 15, 14, 13, 12, 11, 10, 9, 0, 7, 6, 5, 4, 3, 2, 1]\<rparr>"

text \<open>
  Two files: two asks at timestamp 1, and a bid at 2 and an ask at 3. The store
  constructed from them, the store after an ask is inserted at timestamp 2, and the three
  candles of its ask side.
\<close>

definition e8a :: OrderBookEntry where "e8a = mkEntry 10 (Fin 1) ''1'' ''p'' ask"

definition e8b :: OrderBookEntry where "e8b = mkEntry 20 (Fin 3) ''1'' ''p'' ask"

definition e8c :: OrderBookEntry where "e8c = mkEntry 11 (Fin 5) ''2'' ''p'' bid"

definition e8d :: OrderBookEntry where "e8d = mkEntry 30 (Fin 2) ''3'' ''p'' ask"

definition e8e :: OrderBookEntry where "e8e = mkEntry 40 (Fin 1) ''2'' ''p'' ask"

definition march8 :: "OrderBookEntry list" where "march8 = [e8a, e8b]"

definition june8 :: "OrderBookEntry list" where "june8 = [e8c, e8d]"

definition book8 :: OrderBook where "book8 = \<lparr>orders = [e8a, e8b, e8c, e8d]\<rparr>"

definition book8e :: OrderBook where "book8e = \<lparr>orders = [e8a, e8b, e8c, e8e, e8d]\<rparr>"

definition candle8a :: Candlestick where
  "candle8a = \<lparr>timestampC = ''1'', openC = Fin (35 / 2), highC = Fin 20, lowC = Fin 10, closeC = Fin (35 / 2)\<rparr>"

definition candle8b :: Candlestick where
  "candle8b = \<lparr>timestampC = ''2'', openC = Fin (35 / 2), highC = Fin 40, lowC = Fin 40, closeC = Fin 40\<rparr>"

definition candle8c :: Candlestick where
  "candle8c = \<lparr>timestampC = ''3'', openC = Fin 40, highC = Fin 30, lowC = Fin 30, closeC = Fin 30\<rparr>"

text \<open>A store with one ask, of amount 0, and its candle.\<close>

definition e4 :: OrderBookEntry where "e4 = mkEntry 5 (Fin 0) ''t'' ''p'' ask"

definition book4 :: OrderBook where "book4 = \<lparr>orders = [e4]\<rparr>"

definition candle4 :: Candlestick where
  "candle4 = \<lparr>timestampC = ''t'', openC = NaN, highC = Fin 5, lowC = Fin 5, closeC = NaN\<rparr>"

text \<open>
  A store with two asks at the price 3, of amounts \<open>2 ^ 53\<close> and 1, and its candle: the
  sum of the values \<open>3 * 2 ^ 53 + 3\<close> is rounded up to \<open>3 * 2 ^ 53 + 4\<close>, the sum of the
  amounts \<open>2 ^ 53 + 1\<close> is rounded down to \<open>2 ^ 53\<close>, and the quotient is the double next
  above 3.
\<close>

definition e4a :: OrderBookEntry where "e4a = mkEntry 3 (Fin (2 ^ 53)) ''t'' ''p'' ask"

definition e4b :: OrderBookEntry where "e4b = mkEntry 3 (Fin 1) ''t'' ''p'' ask"

definition book4r :: OrderBook where "book4r = \<lparr>orders = [e4a, e4b]\<rparr>"

definition candle4r :: Candlestick where
  "candle4r = \<lparr>timestampC = ''t'', openC = Fin (3 + 1 / 2 ^ 51), highC = Fin 3, lowC = Fin 3,
                closeC = Fin (3 + 1 / 2 ^ 51)\<rparr>"

text \<open>
  A memory holding \<open>book1\<close> in its first two cells, and the memory after the match: the
  copies of the ask and the bid are in cells 2 and 3.
\<close>

definition mem1 :: memory where
  "mem1 = \<lparr>cells = (\<lambda>p. if p = 0 then ask1 else bid1), nextAddr = 2, ordersV = [0, 1]\<rparr>"

definition mem1' :: memory where
  "mem1' = \<lparr>cells = (\<lambda>p. if p = 0 then ask1 else bid1)(2 := ask1, 3 := bid1\<lparr>amount := Fin 1\<rparr>),
            nextAddr = 4, ordersV = [0, 1]\<rparr>"

section \<open>Doubles: rounding\<close>

lemma roundEven_of_int [simp]: "roundEven (of_int n) = n"
  by (simp add: roundEven_def)

lemma roundEven_bounds: "\<lfloor>q\<rfloor> \<le> roundEven q" "roundEven q \<le> \<lfloor>q\<rfloor> + 1"
  by (simp_all add: roundEven_def Let_def)

lemma roundEven_le_ceiling: "roundEven q \<le> \<lceil>q\<rceil>"
proof (cases "q = of_int \<lfloor>q\<rfloor>")
  case True
  then have "roundEven q = \<lfloor>q\<rfloor>" by (metis roundEven_of_int)
  then show ?thesis by (simp add: floor_le_ceiling)
next
  case False
  then have "\<lceil>q\<rceil> = \<lfloor>q\<rfloor> + 1" by (metis ceiling_altdef)
  then show ?thesis using roundEven_bounds(2) [of q] by simp
qed

lemma roundEven_mono: "q \<le> q' \<Longrightarrow> roundEven q \<le> roundEven q'"
proof -
  assume le: "q \<le> q'"
  then have fle: "\<lfloor>q\<rfloor> \<le> \<lfloor>q'\<rfloor>" by (rule floor_mono)
  show ?thesis
  proof (cases "\<lfloor>q\<rfloor> = \<lfloor>q'\<rfloor>")
    case True
    with le show ?thesis by (auto simp: roundEven_def Let_def)
  next
    case False
    with fle have "\<lfloor>q\<rfloor> + 1 \<le> \<lfloor>q'\<rfloor>" by simp
    then show ?thesis using roundEven_bounds(2) [of q] roundEven_bounds(1) [of q'] by linarith
  qed
qed

lemma roundEven_uminus: "roundEven (- q) = - roundEven q"
proof (cases "q = of_int \<lfloor>q\<rfloor>")
  case True
  then obtain n where "q = of_int n" by metis
  then show ?thesis by (metis of_int_minus roundEven_of_int)
next
  case False
  then have c: "\<lceil>q\<rceil> = \<lfloor>q\<rfloor> + 1" by (metis ceiling_altdef)
  have f: "\<lfloor>- q\<rfloor> = - \<lfloor>q\<rfloor> - 1" using c by (simp add: ceiling_def)
  have lt: "of_int \<lfloor>q\<rfloor> < q" using False by (metis of_int_floor_le order_le_less)
  show ?thesis using f lt by (auto simp: roundEven_def Let_def)
qed


lemma pow2_int: "0 \<le> n \<Longrightarrow> (2::real) powr of_int n = of_int (2 ^ nat n)"
proof -
  assume "0 \<le> n"
  then have "(2::real) powr of_int n = 2 powr real (nat n)" by simp
  also have "\<dots> = 2 ^ nat n" by (subst powr_realpow) simp_all
  finally show ?thesis by simp
qed

lemma pow2_diff: "(2::real) powr of_int a / 2 powr of_int b = 2 powr of_int (a - b)"
  by (simp add: powr_diff)

lemma pow2_quot_int:
  assumes "b \<le> a"
  shows "(2::real) powr of_int a / 2 powr of_int b = of_int (2 ^ nat (a - b))"
proof -
  have "(2::real) powr of_int a / 2 powr of_int b = 2 powr of_int (a - b)" by (rule pow2_diff)
  also have "\<dots> = of_int (2 ^ nat (a - b))" using assms by (intro pow2_int) simp
  finally show ?thesis .
qed

lemma pow2_mult_int:
  assumes "b \<le> a"
  shows "of_int (2 ^ nat (a - b)) * (2::real) powr of_int b = 2 powr of_int a"
proof -
  have "of_int (2 ^ nat (a - b)) = (2::real) powr of_int a / 2 powr of_int b"
    using pow2_quot_int [OF assms] by simp
  then show ?thesis by simp
qed

lemma roundEven_nonneg: "0 \<le> q \<Longrightarrow> 0 \<le> roundEven q"
  using roundEven_mono [of 0 q] roundEven_of_int [of 0] by simp

lemma ulpExp_uminus [simp]: "ulpExp (- x) = ulpExp x"
  by (simp add: ulpExp_def)

lemma rawRound_uminus: "rawRound (- x) = - rawRound x"
  by (simp add: rawRound_def roundEven_uminus)

lemma rawRound_nonneg: "0 \<le> x \<Longrightarrow> 0 \<le> rawRound x"
  by (simp add: rawRound_def roundEven_nonneg)

lemma ulpExp_mono: "0 < x \<Longrightarrow> x \<le> y \<Longrightarrow> ulpExp x \<le> ulpExp y"
proof -
  assume "0 < x" "x \<le> y"
  then have "log 2 \<bar>x\<bar> \<le> log 2 \<bar>y\<bar>" by simp
  then have "\<lfloor>log 2 \<bar>x\<bar>\<rfloor> \<le> \<lfloor>log 2 \<bar>y\<bar>\<rfloor>" by (rule floor_mono)
  then show ?thesis by (simp add: ulpExp_def)
qed

lemma rawRound_mono_pos:
  assumes "0 < x" and "x \<le> y"
  shows "rawRound x \<le> rawRound y"
proof -
  let ?ex = "ulpExp x" and ?ey = "ulpExp y"
  have y: "0 < y" using assms by simp
  have le: "?ex \<le> ?ey" using assms by (rule ulpExp_mono)
  have rx: "rawRound x = of_int (roundEven (x / 2 powr of_int ?ex)) * 2 powr of_int ?ex"
    using assms(1) by (simp add: rawRound_def)
  have ry: "rawRound y = of_int (roundEven (y / 2 powr of_int ?ey)) * 2 powr of_int ?ey"
    using y by (simp add: rawRound_def)
  show ?thesis
  proof (cases "?ex = ?ey")
    case True
    have "x / 2 powr of_int ?ey \<le> y / 2 powr of_int ?ey"
      using assms(2) by (simp add: divide_right_mono)
    then have "roundEven (x / 2 powr of_int ?ey) \<le> roundEven (y / 2 powr of_int ?ey)"
      by (rule roundEven_mono)
    then show ?thesis unfolding rx ry True by (simp add: mult_right_mono)
  next
    case False
    with le have lt: "?ex < ?ey" by simp
    define E where "E = \<lfloor>log 2 \<bar>y\<bar>\<rfloor>"
    have ey: "?ey = E - 52" using lt unfolding ulpExp_def E_def by linarith
    have "\<lfloor>log 2 \<bar>x\<bar>\<rfloor> - 52 \<le> ?ex" by (simp add: ulpExp_def)
    with lt ey have "\<lfloor>log 2 \<bar>x\<bar>\<rfloor> < E" by linarith
    then have "log 2 x < of_int E" using assms(1) by (simp add: floor_less_iff)
    then have xE: "x < 2 powr of_int E" using assms(1) by (simp add: log_less_iff)
    have "of_int E \<le> log 2 y" using y by (simp add: E_def)
    then have yE: "2 powr of_int E \<le> y" using y by (simp add: le_log_iff)
    have exE: "0 \<le> E - ?ex" using lt ey by linarith
    have "x / 2 powr of_int ?ex \<le> 2 powr of_int E / 2 powr of_int ?ex"
      using xE by (simp add: divide_right_mono)
    also have "\<dots> = of_int (2 ^ nat (E - ?ex))" using exE by (intro pow2_quot_int) simp
    finally have "roundEven (x / 2 powr of_int ?ex) \<le> 2 ^ nat (E - ?ex)"
      using roundEven_mono roundEven_of_int by metis
    then have "real_of_int (roundEven (x / 2 powr of_int ?ex)) \<le> of_int (2 ^ nat (E - ?ex))"
      by linarith
    then have "rawRound x \<le> of_int (2 ^ nat (E - ?ex)) * 2 powr of_int ?ex"
      unfolding rx by (rule mult_right_mono) simp
    also have "\<dots> = 2 powr of_int E" using exE by (intro pow2_mult_int) simp
    finally have a: "rawRound x \<le> 2 powr of_int E" .
    have e52: "E - ?ey = 52" "?ey \<le> E" using ey by simp_all
    have "real_of_int (2 ^ nat 52) = 2 powr of_int E / 2 powr of_int ?ey"
      using pow2_quot_int [OF e52(2)] e52(1) by simp
    also have "\<dots> \<le> y / 2 powr of_int ?ey" using yE by (simp add: divide_right_mono)
    finally have "2 ^ nat 52 \<le> roundEven (y / 2 powr of_int ?ey)"
      using roundEven_mono roundEven_of_int by metis
    then have "real_of_int (2 ^ nat 52) \<le> of_int (roundEven (y / 2 powr of_int ?ey))"
      by linarith
    then have "real_of_int (2 ^ nat 52) * 2 powr of_int ?ey \<le> rawRound y"
      unfolding ry by (rule mult_right_mono) simp
    moreover have "real_of_int (2 ^ nat 52) * 2 powr of_int ?ey = 2 powr of_int E"
      using pow2_mult_int [OF e52(2)] e52(1) by simp
    ultimately have b: "2 powr of_int E \<le> rawRound y" by simp
    from a b show ?thesis by simp
  qed
qed

lemma rawRound_mono: "x \<le> y \<Longrightarrow> rawRound x \<le> rawRound y"
proof -
  assume le: "x \<le> y"
  consider "0 < x" | "x \<le> 0" "0 \<le> y" | "y < 0" by linarith
  then show ?thesis
  proof cases
    case 1
    then show ?thesis using le by (rule rawRound_mono_pos)
  next
    case 2
    have "rawRound x \<le> 0" using rawRound_nonneg [of "- x"] 2(1) by (simp add: rawRound_uminus)
    moreover have "0 \<le> rawRound y" using 2(2) by (rule rawRound_nonneg)
    ultimately show ?thesis by simp
  next
    case 3
    then have "rawRound (- y) \<le> rawRound (- x)" using le by (intro rawRound_mono_pos) simp_all
    then show ?thesis by (simp add: rawRound_uminus)
  qed
qed

lemma rawRound_grid:
  assumes "x = of_int m * 2 powr of_int k" and "\<bar>m\<bar> < 2 ^ 53" and "- 1074 \<le> k"
  shows "rawRound x = x"
proof (cases "m = 0")
  case True
  then show ?thesis using assms(1) by (simp add: rawRound_def)
next
  case False
  let ?e = "ulpExp x"
  have x0: "x \<noteq> 0" using False assms(1) by simp
  have "\<bar>x\<bar> = of_int \<bar>m\<bar> * 2 powr of_int k" using assms(1) by (simp add: abs_mult)
  also have "\<dots> < 2 ^ 53 * 2 powr of_int k"
  proof (rule mult_strict_right_mono)
    have "real_of_int \<bar>m\<bar> < real_of_int (2 ^ 53)" using assms(2) by linarith
    then show "real_of_int \<bar>m\<bar> < 2 ^ 53" by simp
  qed simp
  also have "\<dots> = 2 powr of_int (k + 53)"
    using pow2_int [of 53] by (simp add: powr_add)
  finally have "log 2 \<bar>x\<bar> < of_int (k + 53)" using x0 by (simp add: log_less_iff)
  then have "\<lfloor>log 2 \<bar>x\<bar>\<rfloor> < k + 53" by (simp add: floor_less_iff)
  then have ek: "?e \<le> k" using assms(3) by (simp add: ulpExp_def)
  have "x / 2 powr of_int ?e = of_int m * (2 powr of_int k / 2 powr of_int ?e)"
    unfolding assms(1) by simp
  also have "\<dots> = of_int m * of_int (2 ^ nat (k - ?e))"
    using pow2_quot_int [OF ek] by simp
  also have "\<dots> = of_int (m * 2 ^ nat (k - ?e))" by simp
  finally have "roundEven (x / 2 powr of_int ?e) = m * 2 ^ nat (k - ?e)"
    by (metis roundEven_of_int)
  then have "rawRound x = of_int (m * 2 ^ nat (k - ?e)) * 2 powr of_int ?e"
    using x0 by (simp add: rawRound_def)
  also have "\<dots> = of_int m * (of_int (2 ^ nat (k - ?e)) * 2 powr of_int ?e)" by simp
  also have "\<dots> = of_int m * 2 powr of_int k" unfolding pow2_mult_int [OF ek] ..
  finally show ?thesis using assms(1) by simp
qed


lemma ulpExp_eq:
  assumes "2 powr of_int E \<le> \<bar>x\<bar>" and "\<bar>x\<bar> < 2 powr of_int (E + 1)"
  shows "ulpExp x = max (E - 52) (- 1074)"
proof -
  have pos: "0 < \<bar>x\<bar>" using assms(1) powr_gt_zero [of 2 "of_int E"] by linarith
  have "of_int E \<le> log 2 \<bar>x\<bar>" using assms(1) pos by (simp add: le_log_iff)
  moreover have "log 2 \<bar>x\<bar> < of_int (E + 1)" using assms(2) pos by (simp add: log_less_iff)
  ultimately have "\<lfloor>log 2 \<bar>x\<bar>\<rfloor> = E" by (simp add: floor_eq_iff)
  then show ?thesis by (simp add: ulpExp_def)
qed

lemma dle_iff: "dle x y \<longleftrightarrow> dlt x y \<or> deq y x"
  by (cases x; cases y) auto

lemma dsub_Fin [simp]: "dsub (Fin x) (Fin y) = fl (x - y)"
  by (simp add: dsub_def)

lemma fl_mono:
  assumes "x \<le> y"
  shows "dle (fl x) (fl y)"
proof -
  have "rawRound x \<le> rawRound y" using assms by (rule rawRound_mono)
  then show ?thesis by (auto simp: fl_def Let_def)
qed

lemma fl_grid:
  assumes "x = of_int m * 2 powr of_int k" and "\<bar>m\<bar> < 2 ^ 53" and "- 1074 \<le> k" and "k \<le> 971"
  shows "fl x = Fin x"
proof -
  have r: "rawRound x = x" using assms(1-3) by (rule rawRound_grid)
  have "\<bar>x\<bar> = of_int \<bar>m\<bar> * 2 powr of_int k" using assms(1) by (simp add: abs_mult)
  also have "\<dots> \<le> of_int \<bar>m\<bar> * 2 powr of_int 971"
  proof (rule mult_left_mono)
    show "(2::real) powr of_int k \<le> 2 powr of_int 971"
      by (rule powr_mono) (use assms(4) in simp_all)
  qed simp
  also have "\<dots> < 2 ^ 53 * 2 powr of_int 971"
  proof (rule mult_strict_right_mono)
    have "real_of_int \<bar>m\<bar> < real_of_int (2 ^ 53)" using assms(2) by linarith
    then show "real_of_int \<bar>m\<bar> < 2 ^ 53" by simp
  qed simp
  also have "\<dots> = 2 ^ 1024" by simp
  finally have "\<bar>x\<bar> < 2 ^ 1024" .
  then have "x < 2 ^ 1024" "- (2 ^ 1024) < x" by linarith+
  then show ?thesis using r by (simp add: fl_def)
qed

lemma fl_of_int: "\<bar>n\<bar> < 2 ^ 53 \<Longrightarrow> fl (of_int n) = Fin (of_int n)"
  using fl_grid [of "of_int n" n 0] by simp

lemma fl_0 [simp]: "fl 0 = Fin 0"
  using fl_of_int [of 0] by simp

lemma fl_1 [simp]: "fl 1 = Fin 1"
  using fl_of_int [of 1] by simp

lemma fl_numeral: "(numeral w :: int) < 2 ^ 53 \<Longrightarrow> fl (numeral w) = Fin (numeral w)"
  using fl_of_int [of "numeral w"] by simp

lemma fl_nat: "n < 2 ^ 53 \<Longrightarrow> fl (real n) = Fin (real n)"
proof -
  assume "n < 2 ^ 53"
  then have "int n < int (2 ^ 53)" by (simp only: of_nat_less_iff)
  then have "\<bar>int n\<bar> < 2 ^ 53" by simp
  then have "fl (of_int (int n)) = Fin (of_int (int n))" by (rule fl_of_int)
  then show ?thesis by simp
qed

lemma fl_eval:
  assumes "2 powr of_int E \<le> \<bar>x\<bar>" and "\<bar>x\<bar> < 2 powr of_int (E + 1)"
    and "- 1022 \<le> E" and "E \<le> 1022"
    and "roundEven (x / 2 powr of_int (E - 52)) = n"
  shows "fl x = Fin (of_int n * 2 powr of_int (E - 52))"
proof -
  let ?u = "(2::real) powr of_int (E - 52)"
  have e: "ulpExp x = E - 52" using ulpExp_eq [OF assms(1,2)] assms(3) by simp
  have x0: "x \<noteq> 0" using assms(1) powr_gt_zero [of 2 "of_int E"] by auto
  have r: "rawRound x = of_int n * ?u" using x0 e assms(5) by (simp add: rawRound_def)
  have q: "\<bar>x / ?u\<bar> \<le> 2 ^ 53"
  proof -
    have "\<bar>x / ?u\<bar> = \<bar>x\<bar> / ?u" by simp
    also have "\<dots> \<le> 2 powr of_int (E + 1) / ?u" using assms(2) by (simp add: divide_right_mono)
    also have "\<dots> = of_int (2 ^ nat ((E + 1) - (E - 52)))" by (intro pow2_quot_int) simp
    also have "\<dots> = 2 ^ 53" by simp
    finally show ?thesis .
  qed
  have "- (2 ^ 53) \<le> x / ?u" "x / ?u \<le> 2 ^ 53" using q by linarith+
  then have b: "of_int (- (2 ^ 53)) \<le> x / ?u" "x / ?u \<le> of_int (2 ^ 53)" by simp_all
  have "roundEven (of_int (- (2 ^ 53))) \<le> roundEven (x / ?u)"
    using b(1) by (rule roundEven_mono)
  moreover have "roundEven (x / ?u) \<le> roundEven (of_int (2 ^ 53))"
    using b(2) by (rule roundEven_mono)
  ultimately have "- (2 ^ 53) \<le> roundEven (x / ?u)" "roundEven (x / ?u) \<le> 2 ^ 53"
    by (simp_all only: roundEven_of_int)
  then have n: "\<bar>n\<bar> \<le> 2 ^ 53" using assms(5) by simp
  have "\<bar>of_int n * ?u\<bar> = of_int \<bar>n\<bar> * ?u" by (simp add: abs_mult)
  also have "\<dots> \<le> of_int (2 ^ 53) * ?u" using n by (intro mult_right_mono) simp_all
  also have "\<dots> \<le> of_int (2 ^ 53) * 2 powr of_int 970"
  proof (rule mult_left_mono)
    show "?u \<le> 2 powr of_int 970"
      by (rule powr_mono) (use assms(4) in simp_all)
  qed simp
  also have "\<dots> < 2 ^ 1024" by simp
  finally have "\<bar>of_int n * ?u\<bar> < 2 ^ 1024" .
  then have "of_int n * ?u < 2 ^ 1024" "- (2 ^ 1024) < of_int n * ?u" by linarith+
  then show ?thesis using r by (simp add: fl_def)
qed

text \<open>The roundings that the examples go through.\<close>

lemma fl_half_below_2p53: "fl (2 ^ 53 - 1 / 2) = Fin (2 ^ 53)"
  using fl_eval [of 52 "2 ^ 53 - 1 / 2" "2 ^ 53"] by (simp add: roundEven_def)

lemma fl_3x2p53_plus_3: "fl (3 * 2 ^ 53 + 3) = Fin (3 * 2 ^ 53 + 4)"
  using fl_eval [of 54 "3 * 2 ^ 53 + 3" "3 * 2 ^ 51 + 1"] by (simp add: roundEven_def)

lemma fl_2p53_plus_1: "fl (2 ^ 53 + 1) = Fin (2 ^ 53)"
  using fl_eval [of 53 "2 ^ 53 + 1" "2 ^ 52"] by (simp add: roundEven_def)

lemma fl_next_above_3: "fl ((3 * 2 ^ 53 + 4) / 2 ^ 53) = Fin (3 + 1 / 2 ^ 51)"
  using fl_grid [of "(3 * 2 ^ 53 + 4) / 2 ^ 53" "3 * 2 ^ 51 + 1" "- 51"]
  by (simp add: powr_neg_numeral)

lemma fl_2p53: "fl (2 ^ 53) = Fin (2 ^ 53)"
  using fl_grid [of "2 ^ 53" 1 53] by simp

lemma fl_3x2p53: "fl (3 * 2 ^ 53) = Fin (3 * 2 ^ 53)"
  using fl_grid [of "3 * 2 ^ 53" 3 53] by simp

lemma fl_35_halves: "fl (35 / 2) = Fin (35 / 2)"
  using fl_grid [of "35 / 2" 35 "- 1"] by (simp add: powr_minus_divide)

section \<open>Known products\<close>

lemma prodMap_dom:
  "dom (RBT.lookup (foldl (\<lambda>prodMap e. RBT.insert (product' e) True prodMap) m es)) =
   dom (RBT.lookup m) \<union> product' ` set es"
  by (induction es arbitrary: m) auto

lemma getKnownProducts_set:
  "set (getKnownProducts book) = product' ` set (orders book)"
  by (simp add: getKnownProducts_def RBT.lookup_keys [symmetric] prodMap_dom)

text \<open>
  C9: \<open>getKnownProducts\<close> returns each distinct product of the store exactly once, in
  ascending lexicographic order: the result is strictly increasing and its elements are
  exactly the products present.
\<close>

theorem getKnownProducts_sorted_distinct:
  "sorted_wrt (<) (getKnownProducts book) \<and>
   distinct (getKnownProducts book) \<and>
   set (getKnownProducts book) = product' ` set (orders book)"
proof -
  have "sorted (getKnownProducts book)" "distinct (getKnownProducts book)"
    by (simp_all add: getKnownProducts_def)
  then show ?thesis
    by (simp add: getKnownProducts_set strict_sorted_iff)
qed

section \<open>Matching: prices\<close>

lemma scanBids_sales:
  "snd (snd (scanBids pr ts a bs)) = map (saleOf pr ts) (scanPairs a bs)"
  by (induction bs arbitrary: a) (simp_all add: saleOf_def dmin_def dle_iff case_prod_beta)

lemma matchLoop_sales:
  "snd (snd (matchLoop pr ts as bids)) = map (saleOf pr ts) (matchPairs pr ts as bids)"
  by (induction as arbitrary: bids) (simp_all add: case_prod_beta scanBids_sales)

lemma copyOf_refl: "copyOf e e" by (simp add: copyOf_def)

lemma copyOf_price: "copyOf e' e \<Longrightarrow> price e' = price e"
  by (metis copyOf_def OrderBookEntry.select_convs(1) OrderBookEntry.surjective OrderBookEntry.update_convs(2))

lemma copyOf_amount_update: "copyOf e' e \<Longrightarrow> copyOf (e'\<lparr>amount := x\<rparr>) e"
  unfolding copyOf_def by (metis OrderBookEntry.select_convs(2) OrderBookEntry.surjective OrderBookEntry.update_convs(2))

lemma copyOf_upd_right: "copyOf e' (e\<lparr>amount := z\<rparr>) = copyOf e' e"
  by (simp add: copyOf_def)

lemma scanPairs_props:
  "(x, y) \<in> set (scanPairs a bs) \<Longrightarrow> copyOf x a \<and> y \<in> set bs \<and> price x \<le> price y"
proof (induction bs arbitrary: a)
  case Nil
  then show ?case by simp
next
  case (Cons b bs)
  then show ?case
    by (fastforce simp: copyOf_refl copyOf_upd_right split: if_splits)
qed


lemma scanBids_bids_copy:
  "list_all2 copyOf (fst (snd (scanBids pr ts a bs))) bs"
  by (induction bs arbitrary: a) (simp_all add: case_prod_beta copyOf_def list_all2_refl)

lemma scanBids_ask_copy: "copyOf (fst (scanBids pr ts a bs)) a"
  by (induction bs arbitrary: a)
     (auto simp: case_prod_beta copyOf_refl intro: copyOf_upd_right [THEN iffD1])

lemma copyOf_trans: "copyOf e'' e' \<Longrightarrow> copyOf e' e \<Longrightarrow> copyOf e'' e"
  unfolding copyOf_def by (metis OrderBookEntry.surjective OrderBookEntry.update_convs(2))

lemma list_all2_copyOf_mem:
  "list_all2 copyOf ys xs \<Longrightarrow> y \<in> set ys \<Longrightarrow> \<exists>x\<in>set xs. copyOf y x"
  by (induction ys xs rule: list_all2_induct) auto

lemma matchPairs_props:
  "(x, y) \<in> set (matchPairs pr ts as bids) \<Longrightarrow>
   (\<exists>a\<in>set as. copyOf x a) \<and> (\<exists>b\<in>set bids. copyOf y b) \<and> price x \<le> price y"
proof (induction as arbitrary: bids)
  case Nil
  then show ?case by simp
next
  case (Cons a as)
  from Cons.prems consider
    (here) "(x, y) \<in> set (scanPairs a bids)"
  | (later) "(x, y) \<in> set (matchPairs pr ts as (fst (snd (scanBids pr ts a bids))))"
    by auto
  then show ?case
  proof cases
    case here
    then show ?thesis using scanPairs_props [of x y a bids] copyOf_refl by auto
  next
    case later
    from Cons.IH [OF later] obtain a0 b1 where
      a0: "a0 \<in> set as" "copyOf x a0" and
      b1: "b1 \<in> set (fst (snd (scanBids pr ts a bids)))" "copyOf y b1" and le: "price x \<le> price y"
      by blast
    from list_all2_copyOf_mem [OF scanBids_bids_copy b1(1)] obtain b0 where
      "b0 \<in> set bids" "copyOf b1 b0" by blast
    with b1(2) have "\<exists>b\<in>set bids. copyOf y b" using copyOf_trans by blast
    with a0 le show ?thesis by auto
  qed
qed


lemma matchPairs_no_bids: "matchPairs pr ts as [] = []"
  by (induction as) simp_all

lemma price_saleOf: "price (saleOf pr ts (x, y)) = price x"
  by (simp add: saleOf_def newSale_def mkEntry_def Let_def)

lemma amount_saleOf: "amount (saleOf pr ts (x, y)) = dmin (amount x) (amount y)"
  by (simp add: saleOf_def)

lemma std_sort_set: "std_sort cmp xs ys \<Longrightarrow> set ys = set xs"
  by (auto simp: std_sort_def dest: mset_eq_setD)

text \<open>
  C1: every sale returned by \<open>matchAsksToBids\<close> has the price of one of the asks queried
  for the product and timestamp; and the sales are exactly the sales of the pairs the two
  loops matched over the sorted working copies, where each such pair is a copy of a queried
  ask and a copy of a queried bid, the bid's price is not below the ask's, and the sale
  carries the ask's price.
\<close>

theorem match_price_priority:
  assumes "matchAsksToBids book pr ts (sales, book')"
  shows "(\<forall>s\<in>set sales. \<exists>a\<in>set (getOrders book ask pr ts). price s = price a) \<and>
         (\<exists>asks' bids'.
            mset asks' = mset (getOrders book ask pr ts) \<and>
            mset bids' = mset (getOrders book bid pr ts) \<and>
            sales = map (saleOf pr ts) (matchPairs pr ts asks' bids') \<and>
            (\<forall>(x, y)\<in>set (matchPairs pr ts asks' bids').
               (\<exists>a\<in>set (getOrders book ask pr ts). copyOf x a) \<and>
               (\<exists>b\<in>set (getOrders book bid pr ts). copyOf y b) \<and>
               \<not> price y < price x \<and> price (saleOf pr ts (x, y)) = price x))"
proof -
  let ?asks = "getOrders book ask pr ts" and ?bids = "getOrders book bid pr ts"
  have key: "\<exists>asks' bids'.
      mset asks' = mset ?asks \<and> mset bids' = mset ?bids \<and>
      sales = map (saleOf pr ts) (matchPairs pr ts asks' bids')"
    using assms
  proof (cases rule: matchAsksToBids.cases)
    case no_liquidity
    then have "matchPairs pr ts ?asks ?bids = []"
      by (auto simp: matchPairs_no_bids)
    with no_liquidity show ?thesis by (intro exI [of _ ?asks] exI [of _ ?bids]) simp
  next
    case (matched asks' bids' asks'' bids'')
    from matched(6) have "sales = map (saleOf pr ts) (matchPairs pr ts asks' bids')"
      using matchLoop_sales [of pr ts asks' bids'] by simp
    with matched(4,5) show ?thesis
      by (auto simp: std_sort_def)
  qed
  then obtain asks' bids' where
    ma: "mset asks' = mset ?asks" and mb: "mset bids' = mset ?bids" and
    sales: "sales = map (saleOf pr ts) (matchPairs pr ts asks' bids')"
    by blast
  have sa: "set asks' = set ?asks" and sb: "set bids' = set ?bids"
    using ma mb by (auto dest: mset_eq_setD)
  have pairs: "(\<exists>a\<in>set ?asks. copyOf x a) \<and> (\<exists>b\<in>set ?bids. copyOf y b) \<and>
      \<not> price y < price x \<and> price (saleOf pr ts (x, y)) = price x"
    if "(x, y) \<in> set (matchPairs pr ts asks' bids')" for x y
    using matchPairs_props [OF that] sa sb by (auto simp: price_saleOf)
  have "\<exists>a\<in>set ?asks. price s = price a" if "s \<in> set sales" for s
  proof -
    from that sales obtain x y where xy: "(x, y) \<in> set (matchPairs pr ts asks' bids')"
      and s: "s = saleOf pr ts (x, y)" by auto
    from pairs [OF xy] obtain a where "a \<in> set ?asks" "copyOf x a" by blast
    then show ?thesis using s copyOf_price [of x a] by (auto simp: price_saleOf)
  qed
  moreover have "\<forall>(x, y)\<in>set (matchPairs pr ts asks' bids').
               (\<exists>a\<in>set ?asks. copyOf x a) \<and> (\<exists>b\<in>set ?bids. copyOf y b) \<and>
               \<not> price y < price x \<and> price (saleOf pr ts (x, y)) = price x"
    using pairs by blast
  ultimately show ?thesis using ma mb sales by blast
qed

lemma getOrders_book1:
  "getOrders book1 ask ''ETH/BTC'' ''2020/03/17 10:00:00.000000'' = [ask1]"
  "getOrders book1 bid ''ETH/BTC'' ''2020/03/17 10:00:00.000000'' = [bid1]"
  by (simp_all add: getOrders_def book1_def ask1_def bid1_def mkEntry_def)

lemma match_book1:
  "matchAsksToBids book1 ''ETH/BTC'' ''2020/03/17 10:00:00.000000'' ([sale1], book1)"
proof (rule matched [where asks' = "[ask1]" and bids' = "[bid1]"])
  show "matchLoop ''ETH/BTC'' ''2020/03/17 10:00:00.000000'' [ask1] [bid1] =
      ([ask1], [bid1\<lparr>amount := Fin 1\<rparr>], [sale1])"
    by (simp add: ask1_def bid1_def sale1_def mkEntry_def newSale_def)
qed (simp_all add: getOrders_book1 std_sort_def)

theorem match_price_priority_witness:
  "matchAsksToBids book1 ''ETH/BTC'' ''2020/03/17 10:00:00.000000'' ([sale1], book1) \<and>
   (\<exists>a\<in>set (getOrders book1 ask ''ETH/BTC'' ''2020/03/17 10:00:00.000000''). price sale1 = price a)"
  using match_price_priority [OF match_book1] match_book1 by simp

section \<open>Matching: quantities\<close>

lemma totalAmount_simps [simp]:
  "totalAmount [] = 0" "totalAmount (e # es) = val (amount e) + totalAmount es"
  "totalAmount (xs @ ys) = totalAmount xs + totalAmount ys"
  by (simp_all add: totalAmount_def)

lemma gridded_simps [simp]:
  "gridded k []" "gridded k (e # es) \<longleftrightarrow> onGrid k (amount e) \<and> gridded k es"
  "gridded k (xs @ ys) \<longleftrightarrow> gridded k xs \<and> gridded k ys"
  by (auto simp: gridded_def)

lemma onGrid_FinE:
  assumes "onGrid k d"
  obtains x where "d = Fin x" and "0 \<le> x"
  using assms by (auto simp: onGrid_def)

lemma onGrid_zero: "onGrid k d \<Longrightarrow> onGrid k (Fin 0)"
  unfolding onGrid_def by (auto intro: exI [of _ 0])

lemma onGrid_diff:
  assumes "onGrid k (Fin x)" and "onGrid k (Fin y)" and "y \<le> x"
  shows "fl (x - y) = Fin (x - y)" and "onGrid k (Fin (x - y))"
proof -
  let ?u = "(2::real) powr of_int k"
  from assms(1) have k: "- 1074 \<le> k" "k \<le> 971" unfolding onGrid_def by blast+
  from assms(1) obtain n :: nat where n: "n < 2 ^ 53" "x = of_nat n * ?u"
    unfolding onGrid_def by blast
  from assms(2) obtain m :: nat where m: "m < 2 ^ 53" "y = of_nat m * ?u"
    unfolding onGrid_def by blast
  have u: "0 < ?u" by simp
  have "real m * ?u \<le> real n * ?u" using assms(3) unfolding n(2) m(2) .
  then have "real m \<le> real n" using u by (simp only: mult_le_cancel_right_pos)
  then have mn: "m \<le> n" by simp
  have "x - y = (real n - real m) * ?u" unfolding n(2) m(2) by (simp only: left_diff_distrib)
  also have "real n - real m = real (n - m)" using mn by (simp only: of_nat_diff)
  finally have d: "x - y = real (n - m) * ?u" .
  have lt: "n - m < 2 ^ 53" using n(1) by linarith
  have d': "x - y = of_int (int (n - m)) * ?u" unfolding d by (simp only: of_int_of_nat_eq)
  have "int (n - m) < int (2 ^ 53)" using lt by (simp only: of_nat_less_iff)
  then have "\<bar>int (n - m)\<bar> < 2 ^ 53" by simp
  with d' show "fl (x - y) = Fin (x - y)" using k by (rule fl_grid)
  show "onGrid k (Fin (x - y))" unfolding onGrid_def using k lt d by blast
qed

lemma totalAmount_gridded: "gridded k es \<Longrightarrow> 0 \<le> totalAmount es"
  by (induction es) (auto elim!: onGrid_FinE)

lemma totalAmount_mset: "mset xs = mset ys \<Longrightarrow> totalAmount xs = totalAmount ys"
  unfolding totalAmount_def by (metis mset_map sum_mset_sum_list)

lemma gridded_mset: "mset xs = mset ys \<Longrightarrow> gridded k xs = gridded k ys"
  by (auto simp: gridded_def dest: mset_eq_setD)

text \<open>On amounts of one grid the scan computes with the numbers themselves.\<close>

lemma scanBids_Cons_grid:
  assumes ga: "onGrid k (Fin x)" and gb: "onGrid k (Fin y)"
    and ha: "amount a = Fin x" and hb: "amount b = Fin y"
  shows "scanBids pr ts a (b # bs) =
     (if price a \<le> price b \<and> y = x then
        (a, b\<lparr>amount := Fin 0\<rparr> # bs, [(newSale pr ts a b)\<lparr>amount := Fin x\<rparr>])
      else if price a \<le> price b \<and> x < y then
        (a, b\<lparr>amount := Fin (y - x)\<rparr> # bs, [(newSale pr ts a b)\<lparr>amount := Fin x\<rparr>])
      else if price a \<le> price b \<and> 0 < y then
        (case scanBids pr ts (a\<lparr>amount := Fin (x - y)\<rparr>) bs of
           (a', bs', sales) \<Rightarrow>
             (a', b\<lparr>amount := Fin 0\<rparr> # bs', (newSale pr ts a b)\<lparr>amount := Fin y\<rparr> # sales))
      else (case scanBids pr ts a bs of (a', bs', sales) \<Rightarrow> (a', b # bs', sales)))"
proof -
  have 1: "fl (y - x) = Fin (y - x)" if "x < y"
    using onGrid_diff(1) [OF gb ga] that by simp
  have 2: "fl (x - y) = Fin (x - y)" if "y < x"
    using onGrid_diff(1) [OF ga gb] that by simp
  show ?thesis using 1 2 by (auto simp: ha hb)
qed

lemma scanBids_grid:
  assumes "onGrid k (amount a)" and "gridded k bs"
  shows "onGrid k (amount (fst (scanBids pr ts a bs))) \<and>
         gridded k (fst (snd (scanBids pr ts a bs))) \<and>
         gridded k (snd (snd (scanBids pr ts a bs))) \<and>
         totalAmount (snd (snd (scanBids pr ts a bs))) + totalAmount (fst (snd (scanBids pr ts a bs))) =
           totalAmount bs \<and>
         totalAmount (snd (snd (scanBids pr ts a bs))) \<le> val (amount a)"
  using assms
proof (induction bs arbitrary: a)
  case Nil
  then show ?case by (auto elim!: onGrid_FinE)
next
  case (Cons b bs)
  from Cons.prems obtain x y where ha: "amount a = Fin x" "0 \<le> x" and hb: "amount b = Fin y" "0 \<le> y"
    by (auto elim!: onGrid_FinE)
  from Cons.prems ha hb have ga: "onGrid k (Fin x)" and gb: "onGrid k (Fin y)" and gbs: "gridded k bs"
    by simp_all
  have z: "onGrid k (Fin 0)" using ga by (rule onGrid_zero)
  note r = scanBids_Cons_grid [OF ga gb ha(1) hb(1), of pr ts bs]
  consider (eq) "price a \<le> price b" "y = x"
    | (gt) "price a \<le> price b" "x < y"
    | (lt) "price a \<le> price b" "y < x" "0 < y"
    | (skip) "\<not> price a \<le> price b \<or> (y < x \<and> y = 0)"
    using hb(2) by fastforce
  then show ?case
  proof cases
    case eq
    then show ?thesis unfolding r using ha hb ga gb gbs z by simp
  next
    case gt
    then have "onGrid k (Fin (y - x))" using onGrid_diff(2) [OF gb ga] by simp
    with gt show ?thesis unfolding r using ha hb ga gb gbs z by simp
  next
    case lt
    let ?a' = "a\<lparr>amount := Fin (x - y)\<rparr>"
    have "onGrid k (amount ?a')" using onGrid_diff(2) [OF ga gb] lt by simp
    from Cons.IH [OF this gbs] lt show ?thesis
      unfolding r using ha hb ga gb gbs z by (simp add: case_prod_beta)
  next
    case skip
    from Cons.IH [OF Cons.prems(1) gbs] skip show ?thesis
      unfolding r using ha hb ga gb gbs by (auto simp: case_prod_beta)
  qed
qed

lemma matchLoop_grid:
  assumes "gridded k as" and "gridded k bids"
  shows "gridded k (fst (snd (matchLoop pr ts as bids))) \<and>
         gridded k (snd (snd (matchLoop pr ts as bids))) \<and>
         totalAmount (snd (snd (matchLoop pr ts as bids))) + totalAmount (fst (snd (matchLoop pr ts as bids))) =
           totalAmount bids \<and>
         totalAmount (snd (snd (matchLoop pr ts as bids))) \<le> totalAmount as"
  using assms
proof (induction as arbitrary: bids)
  case Nil
  then show ?case by simp
next
  case (Cons a as)
  from Cons.prems have ga: "onGrid k (amount a)" and gas: "gridded k as" by simp_all
  note S = scanBids_grid [OF ga Cons.prems(2), of pr ts]
  from S have gb': "gridded k (fst (snd (scanBids pr ts a bids)))" by simp
  note IH = Cons.IH [OF gas gb']
  from S IH show ?case by (simp add: case_prod_beta)
qed

lemma matchLoop_le_bids:
  assumes "gridded k as" and "gridded k bids"
  shows "totalAmount (snd (snd (matchLoop pr ts as bids))) \<le> totalAmount bids"
  using matchLoop_grid [OF assms, of pr ts]
    totalAmount_gridded [of k "fst (snd (matchLoop pr ts as bids))"]
  by linarith

text \<open>
  An ask that every bid is priced for is filled completely, unless it takes all there is.
\<close>

lemma scanBids_fills:
  assumes "onGrid k (amount a)" and "gridded k bs" and "\<forall>b\<in>set bs. price a \<le> price b"
  shows "totalAmount (snd (snd (scanBids pr ts a bs))) = val (amount a) \<or>
         totalAmount (fst (snd (scanBids pr ts a bs))) = 0"
  using assms
proof (induction bs arbitrary: a)
  case Nil
  then show ?case by simp
next
  case (Cons b bs)
  from Cons.prems obtain x y where ha: "amount a = Fin x" "0 \<le> x" and hb: "amount b = Fin y" "0 \<le> y"
    by (auto elim!: onGrid_FinE)
  from Cons.prems ha hb have ga: "onGrid k (Fin x)" and gb: "onGrid k (Fin y)" and gbs: "gridded k bs"
    and pb: "price a \<le> price b" "\<forall>b\<in>set bs. price a \<le> price b"
    by simp_all
  note r = scanBids_Cons_grid [OF ga gb ha(1) hb(1), of pr ts bs]
  consider (eq) "y = x" | (gt) "x < y" | (lt) "y < x" "0 < y" | (zero) "y < x" "y = 0"
    using hb(2) by fastforce
  then show ?case
  proof cases
    case eq
    then show ?thesis unfolding r using ha hb pb by simp
  next
    case gt
    then show ?thesis unfolding r using ha hb pb by simp
  next
    case lt
    let ?a' = "a\<lparr>amount := Fin (x - y)\<rparr>"
    have g': "onGrid k (amount ?a')" using onGrid_diff(2) [OF ga gb] lt by simp
    have p': "\<forall>b\<in>set bs. price ?a' \<le> price b" using pb by simp
    from Cons.IH [OF g' gbs p'] lt show ?thesis
      unfolding r using ha hb pb by (auto simp: case_prod_beta)
  next
    case zero
    from Cons.IH [OF Cons.prems(1) gbs pb(2)] zero show ?thesis
      unfolding r using ha hb pb by (auto simp: case_prod_beta)
  qed
qed

lemma scanBids_price_mem:
  assumes "b' \<in> set (fst (snd (scanBids pr ts a bs)))"
  shows "\<exists>b\<in>set bs. price b' = price b"
  using list_all2_copyOf_mem [OF scanBids_bids_copy assms] copyOf_price by blast

text \<open>
  The asks at the head of the list that every bid is priced for take all the bids, when
  their total is at least the bids' total.
\<close>

lemma matchLoop_drains:
  assumes "gridded k (ua @ rest)" and "gridded k bids"
    and "\<forall>a\<in>set ua. \<forall>b\<in>set bids. price a \<le> price b"
    and "totalAmount bids \<le> totalAmount ua"
  shows "totalAmount (snd (snd (matchLoop pr ts (ua @ rest) bids))) = totalAmount bids"
  using assms
proof (induction ua arbitrary: bids)
  case Nil
  have "totalAmount (snd (snd (matchLoop pr ts rest bids))) \<le> totalAmount bids"
    using Nil.prems(1,2) by (intro matchLoop_le_bids [of k]) simp_all
  moreover have "0 \<le> totalAmount (snd (snd (matchLoop pr ts rest bids)))"
  proof (rule totalAmount_gridded)
    show "gridded k (snd (snd (matchLoop pr ts rest bids)))"
      using matchLoop_grid [of k rest bids pr ts] Nil.prems(1,2) by simp
  qed
  moreover have "totalAmount bids \<le> 0" using Nil.prems(4) by simp
  ultimately show ?case by simp
next
  case (Cons a ua)
  let ?r = "scanBids pr ts a bids"
  let ?bids' = "fst (snd ?r)" and ?s1 = "snd (snd ?r)"
  let ?s2 = "snd (snd (matchLoop pr ts (ua @ rest) ?bids'))"
  from Cons.prems have ga: "onGrid k (amount a)" and gr: "gridded k (ua @ rest)" by simp_all
  note S = scanBids_grid [OF ga Cons.prems(2), of pr ts]
  from S have gb': "gridded k ?bids'" by simp
  have cr': "\<forall>x\<in>set ua. \<forall>b\<in>set ?bids'. price x \<le> price b"
  proof (intro ballI)
    fix x b' assume x: "x \<in> set ua" and b': "b' \<in> set ?bids'"
    from scanBids_price_mem [OF b'] obtain b where "b \<in> set bids" "price b' = price b" by blast
    with Cons.prems(3) x show "price x \<le> price b'" by simp
  qed
  have fill: "totalAmount ?s1 = val (amount a) \<or> totalAmount ?bids' = 0"
    using ga Cons.prems(2,3) by (intro scanBids_fills [of k]) auto
  have cons: "totalAmount ?s1 + totalAmount ?bids' = totalAmount bids" using S by simp
  have "totalAmount ?bids' \<le> totalAmount ua"
  proof -
    from fill show ?thesis
    proof
      assume "totalAmount ?s1 = val (amount a)"
      with cons Cons.prems(4) show ?thesis by simp
    next
      assume "totalAmount ?bids' = 0"
      moreover have "0 \<le> totalAmount ua" using gr totalAmount_gridded [of k ua] by simp
      ultimately show ?thesis by simp
    qed
  qed
  from Cons.IH [OF gr gb' cr' this] have "totalAmount ?s2 = totalAmount ?bids'" .
  with cons show ?case by (simp add: case_prod_beta)
qed

text \<open>
  The bids at the head of the list that are priced for every ask: \<open>cap\<close> is their total.
  An ask takes from them first, and is filled completely when they hold enough.
\<close>

lemma scanBids_cap:
  assumes "onGrid k (amount a)" and "gridded k bs" and "\<forall>p. P p \<longrightarrow> price a \<le> p"
    and "val (amount a) \<le> totalAmount (takeWhile (\<lambda>b. P (price b)) bs)"
  shows "totalAmount (snd (snd (scanBids pr ts a bs))) = val (amount a) \<and>
         totalAmount (takeWhile (\<lambda>b. P (price b)) (fst (snd (scanBids pr ts a bs)))) =
           totalAmount (takeWhile (\<lambda>b. P (price b)) bs) - val (amount a)"
  using assms
proof (induction bs arbitrary: a)
  case Nil
  then show ?case by (auto elim!: onGrid_FinE)
next
  case (Cons b bs)
  from Cons.prems obtain x y where ha: "amount a = Fin x" "0 \<le> x" and hb: "amount b = Fin y" "0 \<le> y"
    by (auto elim!: onGrid_FinE)
  from Cons.prems ha hb have ga: "onGrid k (Fin x)" and gb: "onGrid k (Fin y)" and gbs: "gridded k bs"
    and pp: "\<forall>p. P p \<longrightarrow> price a \<le> p"
    by simp_all
  note r = scanBids_Cons_grid [OF ga gb ha(1) hb(1), of pr ts bs]
  have tw0: "0 \<le> totalAmount (takeWhile (\<lambda>b. P (price b)) bs)"
  proof -
    have "gridded k (takeWhile (\<lambda>b. P (price b)) bs)"
      using gbs by (auto simp: gridded_def dest: set_takeWhileD)
    then show ?thesis by (rule totalAmount_gridded)
  qed
  show ?case
  proof (cases "P (price b)")
    case True
    then have pb: "price a \<le> price b" using pp by simp
    from Cons.prems(4) True ha hb have cap: "x \<le> y + totalAmount (takeWhile (\<lambda>b. P (price b)) bs)"
      by simp
    consider (eq) "y = x" | (gt) "x < y" | (lt) "y < x" "0 < y" | (zero) "y < x" "y = 0"
      using hb(2) by fastforce
    then show ?thesis
    proof cases
      case eq
      then show ?thesis unfolding r using ha hb pb True by simp
    next
      case gt
      then show ?thesis unfolding r using ha hb pb True by simp
    next
      case lt
      let ?a' = "a\<lparr>amount := Fin (x - y)\<rparr>"
      have g': "onGrid k (amount ?a')" using onGrid_diff(2) [OF ga gb] lt by simp
      have p': "\<forall>p. P p \<longrightarrow> price ?a' \<le> p" using pp by simp
      have c': "val (amount ?a') \<le> totalAmount (takeWhile (\<lambda>b. P (price b)) bs)"
        using cap by simp
      from Cons.IH [OF g' gbs p' c'] lt show ?thesis
        unfolding r using ha hb pb True by (simp add: case_prod_beta)
    next
      case zero
      have c': "val (amount a) \<le> totalAmount (takeWhile (\<lambda>b. P (price b)) bs)"
        using cap zero ha by simp
      from Cons.IH [OF Cons.prems(1) gbs pp c'] zero show ?thesis
        unfolding r using ha hb pb True by (simp add: case_prod_beta)
    qed
  next
    case False
    with Cons.prems(4) ha have x0: "x = 0" by simp
    have c': "val (amount a) \<le> totalAmount (takeWhile (\<lambda>b. P (price b)) bs)"
      using x0 ha tw0 by simp
    note IH = Cons.IH [OF Cons.prems(1) gbs pp c']
    consider (eq) "price a \<le> price b" "y = x" | (gt) "price a \<le> price b" "x < y"
      | (skip) "\<not> price a \<le> price b"
      using hb(2) x0 by fastforce
    then show ?thesis
    proof cases
      case eq
      then show ?thesis unfolding r using ha hb False x0 by simp
    next
      case gt
      then show ?thesis unfolding r using ha hb False x0 by simp
    next
      case skip
      with IH show ?thesis unfolding r using ha hb False x0 by (simp add: case_prod_beta)
    qed
  qed
qed

lemma matchLoop_cap:
  assumes "gridded k as" and "gridded k bids" and "\<forall>a\<in>set as. \<forall>p. P p \<longrightarrow> price a \<le> p"
    and "totalAmount as \<le> totalAmount (takeWhile (\<lambda>b. P (price b)) bids)"
  shows "totalAmount (snd (snd (matchLoop pr ts as bids))) = totalAmount as"
  using assms
proof (induction as arbitrary: bids)
  case Nil
  show ?case by simp
next
  case (Cons a as)
  let ?r = "scanBids pr ts a bids"
  let ?bids' = "fst (snd ?r)"
  from Cons.prems have ga: "onGrid k (amount a)" and gas: "gridded k as"
    and pa: "\<forall>p. P p \<longrightarrow> price a \<le> p" and pas: "\<forall>a\<in>set as. \<forall>p. P p \<longrightarrow> price a \<le> p"
    by simp_all
  have t0: "0 \<le> totalAmount as" using gas by (rule totalAmount_gridded)
  have ca: "val (amount a) \<le> totalAmount (takeWhile (\<lambda>b. P (price b)) bids)"
    using Cons.prems(4) t0 by simp
  note C = scanBids_cap [OF ga Cons.prems(2) pa ca, of pr ts]
  have gb': "gridded k ?bids'" using scanBids_grid [OF ga Cons.prems(2), of pr ts] by simp
  have "totalAmount as \<le> totalAmount (takeWhile (\<lambda>b. P (price b)) ?bids')"
    using C Cons.prems(4) by simp
  from Cons.IH [OF gas gb' pas this] C show ?case by (simp add: case_prod_beta)
qed

lemma takeWhile_filter_sorted:
  assumes "sorted_wrt R xs" and "\<And>x y. R x y \<Longrightarrow> P y \<Longrightarrow> P x"
  shows "takeWhile P xs = filter P xs"
  using assms(1)
proof (induction xs)
  case Nil
  show ?case by simp
next
  case (Cons x xs)
  show ?case
  proof (cases "P x")
    case True
    with Cons show ?thesis by simp
  next
    case False
    have "\<not> P y" if "y \<in> set xs" for y using Cons.prems that False assms(2) [of x y] by auto
    then have "filter P xs = []" by (simp add: filter_empty_conv)
    with False show ?thesis by simp
  qed
qed

lemma totalAmount_filter_mset:
  assumes "mset xs = mset ys"
  shows "totalAmount (filter P xs) = totalAmount (filter P ys)"
proof -
  have "mset (filter P xs) = mset (filter P ys)" using assms by (simp add: mset_filter)
  then show ?thesis by (rule totalAmount_mset)
qed


lemmas ex2_defs = ask2a_def ask2b_def bid2a_def bid2b_def bid2c_def sale2_def sale2c_def mkEntry_def

lemma onGrid_0_nat: "n < 2 ^ 53 \<Longrightarrow> onGrid 0 (Fin (of_nat n))"
  unfolding onGrid_def by (intro conjI exI [of _ n]) simp_all

lemma onGrid_0_simps: "onGrid 0 (Fin 0)" "onGrid 0 (Fin 1)" "onGrid 0 (Fin 2)" "onGrid 0 (Fin 3)"
  using onGrid_0_nat [of 0] onGrid_0_nat [of 1] onGrid_0_nat [of 2] onGrid_0_nat [of 3]
  by simp_all

lemma getOrders_book2c:
  "getOrders book2c ask ''p'' ''t'' = [ask2a, ask2b]"
  "getOrders book2c bid ''p'' ''t'' = [bid2c, bid2b]"
  by (simp_all add: getOrders_def book2c_def ex2_defs)

lemma matchLoop_book2c:
  "matchLoop ''p'' ''t'' [ask2a, ask2b] [bid2c, bid2b] =
     ([ask2a, ask2b], [bid2c\<lparr>amount := Fin 1\<rparr>, bid2b], [sale2, sale2c])"
  by (simp add: ex2_defs newSale_def fl_numeral)

lemma match_book2c: "matchAsksToBids book2c ''p'' ''t'' ([sale2, sale2c], book2c)"
  by (rule matched [where asks' = "[ask2a, ask2b]" and bids' = "[bid2c, bid2b]", OF _ _ _ _ matchLoop_book2c])
     (simp_all add: getOrders_book2c std_sort_def compareByPriceAsc_def compareByPriceDesc_def ex2_defs)


lemma mset_two: "mset xs = {#a, b#} \<Longrightarrow> xs = [a, b] \<or> xs = [b, a]"
proof -
  assume h: "mset xs = {#a, b#}"
  then have "length xs = 2" by (metis size_mset size_add_mset size_empty numeral_2_eq_2)
  then obtain x y where xs: "xs = [x, y]"
    by (metis One_nat_def Suc_1 length_0_conv length_Suc_conv)
  with h show ?thesis by (auto simp: add_eq_conv_ex)
qed

lemma getOrders_book2:
  "getOrders book2 ask ''p'' ''t'' = [ask2a, ask2b]"
  "getOrders book2 bid ''p'' ''t'' = [bid2a, bid2b]"
  by (simp_all add: getOrders_def book2_def ex2_defs)

lemma matchLoop_book2:
  "matchLoop ''p'' ''t'' [ask2a, ask2b] [bid2a, bid2b] =
     ([ask2a, ask2b], [bid2a\<lparr>amount := Fin 0\<rparr>, bid2b], [sale2])"
  by (simp add: ex2_defs newSale_def)

lemma match_book2: "matchAsksToBids book2 ''p'' ''t'' ([sale2], book2)"
  by (rule matched [where asks' = "[ask2a, ask2b]" and bids' = "[bid2a, bid2b]", OF _ _ _ _ matchLoop_book2])
     (simp_all add: getOrders_book2 std_sort_def compareByPriceAsc_def compareByPriceDesc_def ex2_defs)

lemma match_book2_only:
  assumes "matchAsksToBids book2 ''p'' ''t'' out"
  shows "out = ([sale2], book2)"
  using assms
proof (cases rule: matchAsksToBids.cases)
  case no_liquidity
  then show ?thesis by (simp add: getOrders_book2)
next
  case (matched asks' bids' asks'' bids'' sales)
  from matched(4) have ma: "mset asks' = {#ask2a, ask2b#}"
    and sa: "sorted_wrt (\<lambda>x y. \<not> price y < price x) asks'"
    by (simp_all add: std_sort_def getOrders_book2 compareByPriceAsc_def)
  have "asks' \<noteq> [ask2b, ask2a]" using sa by (auto simp: ex2_defs)
  with mset_two [OF ma] have asks': "asks' = [ask2a, ask2b]" by simp
  from matched(5) have mb: "mset bids' = {#bid2a, bid2b#}"
    and sb: "sorted_wrt (\<lambda>x y. \<not> price y > price x) bids'"
    by (simp_all add: std_sort_def getOrders_book2 compareByPriceDesc_def)
  have "bids' \<noteq> [bid2b, bid2a]" using sb by (auto simp: ex2_defs)
  with mset_two [OF mb] have bids': "bids' = [bid2a, bid2b]" by simp
  from matched(6) have "sales = [sale2]" unfolding asks' bids' matchLoop_book2 by simp
  with matched(1) show ?thesis by simp
qed

lemma fullyConsumable_book2: "fullyConsumable_spec [ask2a, ask2b] [bid2a, bid2b]"
  unfolding fullyConsumable_spec_def
proof (intro exI conjI disjI1)
  show "fillPlan [ask2a, ask2b] [bid2a, bid2b] [(0, 1, 1), (1, 0, 1)]"
    by (simp add: fillPlan_def askFill_def bidFill_def ex2_defs less_Suc_eq)
  show "\<forall>i<length [ask2a, ask2b]. askFill [(0, 1, 1), (1, 0, 1)] i = val (amount ([ask2a, ask2b] ! i))"
    by (simp add: askFill_def ex2_defs less_Suc_eq)
qed

lemmas ex2r_defs = ask2r_def bid2r_def bid2s_def sale2r_def sale2s_def mkEntry_def

lemma getOrders_book2r:
  "getOrders book2r ask ''p'' ''t'' = [ask2r]"
  "getOrders book2r bid ''p'' ''t'' = [bid2r, bid2s]"
  by (simp_all add: getOrders_def book2r_def ex2r_defs)

lemma matchLoop_book2r:
  "matchLoop ''p'' ''t'' [ask2r] [bid2r, bid2s] =
     ([ask2r], [bid2r\<lparr>amount := Fin 0\<rparr>, bid2s\<lparr>amount := Fin 0\<rparr>], [sale2r, sale2s])"
proof -
  have "dsub (Fin (2 ^ 53)) (Fin (1 / 2)) = Fin (2 ^ 53)"
    unfolding dsub_Fin by (rule fl_half_below_2p53)
  then show ?thesis by (simp add: ex2r_defs newSale_def)
qed

lemma match_book2r: "matchAsksToBids book2r ''p'' ''t'' ([sale2r, sale2s], book2r)"
  by (rule matched [where asks' = "[ask2r]" and bids' = "[bid2r, bid2s]", OF _ _ _ _ matchLoop_book2r])
     (simp_all add: getOrders_book2r std_sort_def compareByPriceAsc_def compareByPriceDesc_def ex2r_defs)


section \<open>Matching: the call returns\<close>

lemma std_sort_asc_exists: "\<exists>ys. std_sort compareByPriceAsc xs ys"
proof
  have "sorted_wrt (\<lambda>x y. price x \<le> price y) (sort_key price xs)"
    using sorted_sort_key [of price xs] by (simp add: sorted_map)
  then have "sorted_wrt (\<lambda>x y. \<not> compareByPriceAsc y x) (sort_key price xs)"
    by (rule sorted_wrt_mono_rel [rotated]) (simp add: compareByPriceAsc_def)
  then show "std_sort compareByPriceAsc xs (sort_key price xs)"
    by (simp add: std_sort_def)
qed

lemma std_sort_desc_exists: "\<exists>ys. std_sort compareByPriceDesc xs ys"
proof
  let ?k = "\<lambda>e. - price e"
  have "sorted_wrt (\<lambda>x y. ?k x \<le> ?k y) (sort_key ?k xs)"
    using sorted_sort_key [of ?k xs] by (simp add: sorted_map)
  then have "sorted_wrt (\<lambda>x y. \<not> compareByPriceDesc y x) (sort_key ?k xs)"
    by (rule sorted_wrt_mono_rel [rotated]) (simp add: compareByPriceDesc_def)
  then show "std_sort compareByPriceDesc xs (sort_key ?k xs)"
    by (simp add: std_sort_def)
qed

lemma match_returns: "\<exists>sales. matchAsksToBids book pr ts (sales, book)"
proof (cases "getOrders book ask pr ts = [] \<or> getOrders book bid pr ts = []")
  case True
  then show ?thesis using no_liquidity by blast
next
  case False
  obtain asks' bids' where
    "std_sort compareByPriceAsc (getOrders book ask pr ts) asks'"
    "std_sort compareByPriceDesc (getOrders book bid pr ts) bids'"
    using std_sort_asc_exists std_sort_desc_exists by blast
  moreover obtain x y sales where "matchLoop pr ts asks' bids' = (x, y, sales)"
    by (cases "matchLoop pr ts asks' bids'") auto
  ultimately show ?thesis using False matched by blast
qed

section \<open>Matching: zero quantities\<close>

lemma std_sort_single: "std_sort cmp [x] ys \<longleftrightarrow> ys = [x]"
  by (auto simp: std_sort_def)

text \<open>
  C10: when the store holds exactly one ask and one bid for a product and timestamp, both
  of amount 0 and the bid priced at least the ask, \<open>matchAsksToBids\<close> returns one sale,
  of amount 0: the zero-quantity trade is emitted, not filtered out. The witness is such a
  store.
\<close>

theorem zero_quantity_trade_emitted:
  assumes "getOrders book ask pr ts = [a]" and "getOrders book bid pr ts = [b]"
    and "amount a = Fin 0" and "amount b = Fin 0" and "price a \<le> price b"
  shows "matchAsksToBids book pr ts ([(newSale pr ts a b)\<lparr>amount := Fin 0\<rparr>], book) \<and>
         (\<forall>out. matchAsksToBids book pr ts out \<longrightarrow>
            fst out = [(newSale pr ts a b)\<lparr>amount := Fin 0\<rparr>])"
proof (intro conjI allI impI)
  have ml: "matchLoop pr ts [a] [b] =
      ([a], [b\<lparr>amount := Fin 0\<rparr>], [(newSale pr ts a b)\<lparr>amount := Fin 0\<rparr>])"
    using assms(3-5) by simp
  show "matchAsksToBids book pr ts ([(newSale pr ts a b)\<lparr>amount := Fin 0\<rparr>], book)"
    by (rule matched [where asks' = "[a]" and bids' = "[b]", OF _ _ _ _ ml])
       (simp_all add: assms std_sort_single)
  fix out assume "matchAsksToBids book pr ts out"
  then show "fst out = [(newSale pr ts a b)\<lparr>amount := Fin 0\<rparr>]"
  proof (cases rule: matchAsksToBids.cases)
    case no_liquidity
    then show ?thesis using assms(1,2) by simp
  next
    case (matched asks' bids' asks'' bids'' sales)
    from matched(4,5) have "asks' = [a]" "bids' = [b]"
      by (simp_all add: assms(1,2) std_sort_single)
    with matched(6) ml have "sales = [(newSale pr ts a b)\<lparr>amount := Fin 0\<rparr>]" by simp
    with matched(1) show ?thesis by simp
  qed
qed

lemma getOrders_book3:
  "getOrders book3 ask ''p'' ''t'' = [ask3]" "getOrders book3 bid ''p'' ''t'' = [bid3]"
  by (simp_all add: getOrders_def book3_def ask3_def bid3_def mkEntry_def)

theorem zero_quantity_trade_emitted_witness:
  "getOrders book3 ask ''p'' ''t'' = [ask3] \<and> getOrders book3 bid ''p'' ''t'' = [bid3] \<and>
   amount ask3 = Fin 0 \<and> amount bid3 = Fin 0 \<and> price ask3 \<le> price bid3 \<and>
   matchAsksToBids book3 ''p'' ''t'' ([sale3], book3) \<and> amount sale3 = Fin 0"
proof -
  have h: "amount ask3 = Fin 0" "amount bid3 = Fin 0" "price ask3 \<le> price bid3"
    by (simp_all add: ask3_def bid3_def mkEntry_def)
  have "(newSale ''p'' ''t'' ask3 bid3)\<lparr>amount := Fin 0\<rparr> = sale3"
    by (simp add: newSale_def ask3_def bid3_def sale3_def mkEntry_def)
  with zero_quantity_trade_emitted [OF getOrders_book3 h] h getOrders_book3
  show ?thesis by (simp add: sale3_def mkEntry_def)
qed

section \<open>Order store: the time cursor\<close>

lemma std_sort_timestamps:
  "std_sort compareByTimestamp xs ys \<Longrightarrow> sorted (map timestamp ys)"
proof -
  assume "std_sort compareByTimestamp xs ys"
  then have "sorted_wrt (\<lambda>x y. \<not> timestamp y < timestamp x) ys"
    by (simp add: std_sort_def compareByTimestamp_def)
  then have "sorted_wrt (\<lambda>x y. timestamp x \<le> timestamp y) ys"
    by (rule sorted_wrt_mono_rel [rotated]) simp
  then show ?thesis by (simp add: sorted_map)
qed

lemma hd_sorted_Min:
  assumes "sorted (map timestamp (e # es))"
  shows "timestamp e = Min (timestamp ` set (e # es))"
proof -
  have "\<forall>t\<in>timestamp ` set (e # es). timestamp e \<le> t" using assms by auto
  then show ?thesis by (intro Min_eqI [symmetric]) auto
qed

lemma nextScan_sorted:
  "sorted (map timestamp es) \<Longrightarrow>
   nextScan cur es =
     (if \<exists>t\<in>timestamp ` set es. cur < t then Min {t \<in> timestamp ` set es. cur < t} else [])"
proof (induction es)
  case Nil
  then show ?case by simp
next
  case (Cons e es)
  then have s: "sorted (map timestamp es)" and le: "\<forall>x\<in>set es. timestamp e \<le> timestamp x"
    by auto
  show ?case
  proof (cases "cur < timestamp e")
    case True
    have "Min {t \<in> timestamp ` set (e # es). cur < t} = timestamp e"
      using True le by (intro Min_eqI) auto
    with True show ?thesis by auto
  next
    case False
    then have "{t \<in> timestamp ` set (e # es). cur < t} = {t \<in> timestamp ` set es. cur < t}"
      by auto
    moreover have "(\<exists>t\<in>timestamp ` set (e # es). cur < t) = (\<exists>t\<in>timestamp ` set es. cur < t)"
      using False by auto
    ultimately show ?thesis using False Cons.IH [OF s] by simp
  qed
qed

lemma getNextTime_sorted:
  assumes "orders book \<noteq> []" and "sorted (map timestamp (orders book))"
  shows "getNextTime book cur =
     Returns (if \<exists>t\<in>storedTimes book. cur < t then Min {t \<in> storedTimes book. cur < t}
              else Min (storedTimes book))"
proof (cases "\<exists>t\<in>storedTimes book. cur < t")
  case True
  let ?S = "{t \<in> storedTimes book. cur < t}"
  have "finite ?S" "?S \<noteq> {}" using True by (auto simp: storedTimes_def)
  then have "Min ?S \<in> ?S" by (rule Min_in)
  then have "cur < Min ?S" by simp
  then have "Min ?S \<noteq> []" by auto
  moreover have "nextScan cur (orders book) = Min ?S"
    using nextScan_sorted [OF assms(2), of cur] True by (simp add: storedTimes_def)
  ultimately have "getNextTime book cur = Returns (Min ?S)"
    by (simp add: getNextTime_def)
  with True show ?thesis by simp
next
  case False
  obtain e es where oe: "orders book = e # es" using assms(1) by (cases "orders book") auto
  have m: "Min (storedTimes book) = timestamp e"
    using hd_sorted_Min [of e es] assms(2) oe by (simp add: storedTimes_def)
  have "nextScan cur (orders book) = []"
    using nextScan_sorted [OF assms(2), of cur] False by (simp add: storedTimes_def)
  then have "getNextTime book cur = Returns (timestamp e)"
    by (simp add: getNextTime_def oe)
  with False m show ?thesis by simp
qed

lemma getEarliestTime_sorted:
  assumes "orders book \<noteq> []" and "sorted (map timestamp (orders book))"
  shows "getEarliestTime book = Returns (Min (storedTimes book))"
proof -
  obtain e es where oe: "orders book = e # es" using assms(1) by (cases "orders book") auto
  have "Min (storedTimes book) = timestamp e"
    using hd_sorted_Min [of e es] assms(2) oe by (simp add: storedTimes_def)
  then show ?thesis by (simp add: getEarliestTime_def oe)
qed

lemma finite_storedTimes: "finite (storedTimes book)"
  by (simp add: storedTimes_def)

lemma timeline_props:
  "set (timeline book) = storedTimes book" "sorted_wrt (<) (timeline book)"
  "length (timeline book) = card (storedTimes book)"
  by (simp_all add: timeline_def finite_storedTimes)

lemma timeline_step:
  assumes "orders book \<noteq> []" and "sorted (map timestamp (orders book))"
    and i: "i < length (timeline book)"
  shows "getNextTime book (timeline book ! i) =
           Returns (timeline book ! (Suc i mod length (timeline book)))"
proof -
  let ?L = "timeline book" and ?T = "storedTimes book"
  have ss: "sorted_wrt (<) ?L" and st: "set ?L = ?T" by (simp_all add: timeline_props)
  have lt: "?L ! j < ?L ! k" if "j < k" "k < length ?L" for j k
    using ss that by (simp add: sorted_wrt_iff_nth_less)
  have mem: "\<exists>k<length ?L. y = ?L ! k" if "y \<in> ?T" for y
  proof -
    from that st have "y \<in> set ?L" by simp
    then show ?thesis by (auto simp: in_set_conv_nth)
  qed
  show ?thesis
  proof (cases "Suc i < length ?L")
    case True
    have gt: "?L ! i < ?L ! Suc i" using lt [of i "Suc i"] True by simp
    have "Min {t \<in> ?T. ?L ! i < t} = ?L ! Suc i"
    proof (rule Min_eqI)
      show "finite {t \<in> ?T. ?L ! i < t}" by (simp add: finite_storedTimes)
      have "?L ! Suc i \<in> set ?L" using True by (rule nth_mem)
      then show "?L ! Suc i \<in> {t \<in> ?T. ?L ! i < t}" using gt st by simp
      fix y assume "y \<in> {t \<in> ?T. ?L ! i < t}"
      then obtain k where k: "k < length ?L" "y = ?L ! k" "?L ! i < y"
        using mem [of y] by auto
      have "\<not> k \<le> i"
      proof
        assume "k \<le> i"
        then have "?L ! k \<le> ?L ! i" using lt [of k i] i by (cases "k = i") auto
        with k show False by simp
      qed
      then have "Suc i \<le> k" by simp
      then show "?L ! Suc i \<le> y" using lt [of "Suc i" k] k by (cases "Suc i = k") auto
    qed
    moreover have "\<exists>t\<in>?T. ?L ! i < t"
      using gt nth_mem [OF True] st by blast
    ultimately show ?thesis
      using getNextTime_sorted [OF assms(1,2), of "?L ! i"] True by simp
  next
    case False
    then have last: "Suc i = length ?L" using i by simp
    have "\<not> (\<exists>t\<in>?T. ?L ! i < t)"
    proof
      assume "\<exists>t\<in>?T. ?L ! i < t"
      then obtain k where k: "k < length ?L" "?L ! i < ?L ! k"
        using mem by blast
      then have "k \<le> i" using last by simp
      then have "?L ! k \<le> ?L ! i" using lt [of k i] i by (cases "k = i") auto
      with k show False by simp
    qed
    moreover have "Min ?T = ?L ! 0"
    proof (rule Min_eqI)
      show "finite ?T" by (rule finite_storedTimes)
      have "0 < length ?L" using i by auto
      then have "?L ! 0 \<in> set ?L" by (rule nth_mem)
      then show "?L ! 0 \<in> ?T" using st by simp
      fix y assume "y \<in> ?T"
      then obtain k where k: "k < length ?L" "y = ?L ! k" using mem [of y] by auto
      then show "?L ! 0 \<le> y" using lt [of 0 k] by (cases "k = 0") auto
    qed
    ultimately show ?thesis
      using getNextTime_sorted [OF assms(1,2), of "?L ! i"] last by simp
  qed
qed

lemma walk_cycle:
  assumes "orders book \<noteq> []" and "sorted (map timestamp (orders book))"
  shows "i < length (timeline book) \<Longrightarrow>
         walk book k (timeline book ! i) =
           map (\<lambda>j. timeline book ! ((i + j) mod length (timeline book))) [0..<k]"
proof (induction k arbitrary: i)
  case 0
  show ?case by simp
next
  case (Suc k)
  let ?L = "timeline book"
  let ?n = "length ?L"
  have n: "0 < ?n" using Suc.prems by auto
  have i': "Suc i mod ?n < ?n" using n by simp
  have "walk book (Suc k) (?L ! i) = ?L ! i # walk book k (?L ! (Suc i mod ?n))"
    using timeline_step [OF assms Suc.prems] by simp
  also have "walk book k (?L ! (Suc i mod ?n)) = map (\<lambda>j. ?L ! ((Suc i mod ?n + j) mod ?n)) [0..<k]"
    by (rule Suc.IH [OF i'])
  also have "\<dots> = map (\<lambda>j. ?L ! ((i + Suc j) mod ?n)) [0..<k]"
    by (simp add: mod_add_left_eq)
  also have "?L ! i # \<dots> = map (\<lambda>j. ?L ! ((i + j) mod ?n)) [0..<Suc k]"
    using Suc.prems by (simp add: upt_conv_Cons map_Suc_upt [symmetric] del: upt_Suc)
  finally show ?case .
qed

lemmas ex5_defs = e5a_def e5b_def e5c_def e5d_def mkEntry_def

text \<open>
  C5: on a non-empty store sorted by timestamp (the constructor and every insert leave it
  so), \<open>getEarliestTime\<close> returns the least stored timestamp; \<open>getNextTime\<close> returns the
  least stored timestamp greater than its argument, and the least stored timestamp when
  none is greater; and the walk from the earliest timestamp runs through the timeline
  cyclically: its first \<open>card (storedTimes book)\<close> steps are the distinct stored timestamps
  in ascending order, each once, and the next step is the earliest timestamp again.
\<close>

theorem next_time_cycle:
  assumes "orders book \<noteq> []" and "sorted (map timestamp (orders book))"
  shows "getEarliestTime book = Returns (Min (storedTimes book)) \<and>
         getNextTime book cur =
           Returns (if \<exists>t\<in>storedTimes book. cur < t then Min {t \<in> storedTimes book. cur < t}
                    else Min (storedTimes book)) \<and>
         (\<forall>k. walk book k (Min (storedTimes book)) =
               map (\<lambda>j. timeline book ! (j mod card (storedTimes book))) [0..<k]) \<and>
         walk book (card (storedTimes book)) (Min (storedTimes book)) = timeline book \<and>
         walk book (Suc (card (storedTimes book))) (Min (storedTimes book)) =
           timeline book @ [Min (storedTimes book)]"
proof -
  let ?L = "timeline book" and ?T = "storedTimes book"
  let ?n = "card ?T"
  have len: "length ?L = ?n" by (simp add: timeline_props)
  have "?T \<noteq> {}" using assms(1) by (simp add: storedTimes_def)
  then have n: "0 < ?n" using finite_storedTimes [of book] by (simp add: card_gt_0_iff)
  have min0: "Min ?T = ?L ! 0"
  proof (rule Min_eqI)
    show "finite ?T" by (rule finite_storedTimes)
    have "?L ! 0 \<in> set ?L" using n len by (intro nth_mem) simp
    then show "?L ! 0 \<in> ?T" by (simp add: timeline_props)
    fix y assume "y \<in> ?T"
    then have "y \<in> set ?L" by (simp add: timeline_props)
    then obtain k where k: "k < length ?L" "y = ?L ! k" by (auto simp: in_set_conv_nth)
    have "sorted ?L" using timeline_props(2) [of book] by (simp add: strict_sorted_iff)
    then show "?L ! 0 \<le> y" using k by (simp add: sorted_iff_nth_mono)
  qed
  have cyc: "walk book k (Min ?T) = map (\<lambda>j. ?L ! (j mod ?n)) [0..<k]" for k
    using walk_cycle [OF assms, of 0 k] n len min0 by simp
  have full: "map (\<lambda>j. ?L ! (j mod ?n)) [0..<?n] = ?L"
  proof -
    have "map (\<lambda>j. ?L ! (j mod ?n)) [0..<?n] = map ((!) ?L) [0..<length ?L]"
      unfolding len by (rule map_cong) simp_all
    also have "\<dots> = ?L" by (rule map_nth)
    finally show ?thesis .
  qed
  have "walk book (Suc ?n) (Min ?T) = ?L @ [Min ?T]"
    using cyc [of "Suc ?n"] full min0 by simp
  moreover have "walk book ?n (Min ?T) = ?L" using cyc [of ?n] full by simp
  ultimately show ?thesis
    using getEarliestTime_sorted [OF assms] getNextTime_sorted [OF assms, of cur] cyc
    by simp
qed

lemma storedTimes_book5: "storedTimes book5 = {''1'', ''2'', ''3''}"
  by (auto simp: storedTimes_def book5_def ex5_defs)

lemma Min_book5: "Min (storedTimes book5) = ''1''"
  by (simp add: storedTimes_book5)

lemma card_book5: "card (storedTimes book5) = 3"
  by (simp add: storedTimes_book5)

theorem next_time_cycle_witness:
  "orders book5 \<noteq> [] \<and> sorted (map timestamp (orders book5)) \<and>
   getEarliestTime book5 = Returns ''1'' \<and>
   getNextTime book5 ''1'' = Returns ''2'' \<and>
   getNextTime book5 ''3'' = Returns ''1'' \<and>
   walk book5 3 ''1'' = timeline book5 \<and>
   walk book5 3 ''1'' = [''1'', ''2'', ''3''] \<and>
   walk book5 4 ''1'' = [''1'', ''2'', ''3'', ''1'']"
proof -
  have h1: "orders book5 \<noteq> []" by (simp add: book5_def)
  have h2: "sorted (map timestamp (orders book5))" by (simp add: book5_def ex5_defs)
  have n1: "getNextTime book5 ''1'' = Returns ''2''" "getNextTime book5 ''3'' = Returns ''1''"
    "getNextTime book5 ''2'' = Returns ''3''"
    by (simp_all add: getNextTime_def book5_def ex5_defs)
  have w: "walk book5 3 ''1'' = [''1'', ''2'', ''3'']" "walk book5 4 ''1'' = [''1'', ''2'', ''3'', ''1'']"
    by (simp_all add: numeral_3_eq_3 numeral_Bit0 n1)
  note t = next_time_cycle [OF h1 h2, of "''1''", unfolded Min_book5 card_book5]
  have "getEarliestTime book5 = Returns ''1''" by (rule t [THEN conjunct1])
  moreover have "walk book5 3 ''1'' = timeline book5"
    by (rule t [THEN conjunct2, THEN conjunct2, THEN conjunct2, THEN conjunct1])
  ultimately show ?thesis using h1 h2 n1 w by simp
qed

section \<open>Order store: the earliest timestamp\<close>

text \<open>
  C6 (amended): on a store with no records \<open>getEarliestTime\<close> has no defined result (it
  reads \<open>orders[0]\<close> of an empty vector) and raises nothing; on a non-empty store it
  returns the timestamp of the first record, which is the least timestamp present when the
  store is sorted by timestamp.
\<close>

theorem earliest_time:
  "(orders book = [] \<longrightarrow> getEarliestTime book = Undefined) \<and>
   (\<forall>e es. orders book = e # es \<longrightarrow> getEarliestTime book = Returns (timestamp e)) \<and>
   (orders book \<noteq> [] \<and> sorted (map timestamp (orders book)) \<longrightarrow>
      getEarliestTime book = Returns (Min (storedTimes book)))"
  using getEarliestTime_sorted [of book] by (simp add: getEarliestTime_def)

theorem earliest_time_witness:
  "getEarliestTime emptyBook = Undefined \<and>
   orders book5 \<noteq> [] \<and> sorted (map timestamp (orders book5)) \<and>
   getEarliestTime book5 = Returns ''1'' \<and> Min (storedTimes book5) = ''1''"
proof -
  have h: "orders book5 \<noteq> []" "sorted (map timestamp (orders book5))"
    by (simp_all add: book5_def ex5_defs)
  have "orders emptyBook = []" by (simp add: emptyBook_def)
  with earliest_time [of emptyBook] have "getEarliestTime emptyBook = Undefined" by simp
  moreover from earliest_time [of book5] h
  have "getEarliestTime book5 = Returns (Min (storedTimes book5))" by simp
  ultimately show ?thesis using h by (simp add: Min_book5)
qed

text \<open>
  C6 as stated fails: on the empty store the call does not fail with \<open>EmptyStore\<close>.
\<close>

theorem earliest_time_counterexample:
  "orders emptyBook = [] \<and> getEarliestTime emptyBook = Undefined \<and>
   getEarliestTime emptyBook \<noteq> Throws EmptyStore"
  by (simp add: emptyBook_def getEarliestTime_def)

section \<open>Order store: insertion\<close>

lemma OrderBook_ctor_sorted:
  assumes "OrderBook_ctor march june book"
  shows "sorted (map timestamp (orders book))" and "mset (orders book) = mset march + mset june"
proof -
  from assms have s: "std_sort compareByTimestamp (march @ june) (orders book)"
    by (simp add: OrderBook_ctor_def std_sort_def compareByTimestamp_def)
  then show "sorted (map timestamp (orders book))" by (rule std_sort_timestamps)
  from s show "mset (orders book) = mset march + mset june" by (simp add: std_sort_def)
qed

lemma insertOrder_sorted:
  "insertOrder book e book' \<Longrightarrow> sorted (map timestamp (orders book'))"
  unfolding insertOrder_def by (rule std_sort_timestamps)

lemma insertOrder_mset:
  "insertOrder book e book' \<Longrightarrow> mset (orders book') = mset (orders book) + {#e#}"
  by (simp add: insertOrder_def std_sort_def)

lemma insertOrder_returns: "\<exists>book'. insertOrder book e book'"
proof
  let ?ys = "sort_key timestamp (orders book @ [e])"
  have "sorted_wrt (\<lambda>x y. timestamp x \<le> timestamp y) ?ys"
    using sorted_sort_key [of timestamp "orders book @ [e]"] by (simp add: sorted_map)
  then have "sorted_wrt (\<lambda>x y. \<not> compareByTimestamp y x) ?ys"
    by (rule sorted_wrt_mono_rel [rotated]) (simp add: compareByTimestamp_def)
  then show "insertOrder book e (book\<lparr>orders := ?ys\<rparr>)"
    by (simp add: insertOrder_def std_sort_def)
qed

lemma insertAll_returns: "\<exists>book'. insertAll book es book'"
proof (induction es arbitrary: book)
  case Nil
  show ?case using insertAll_Nil by blast
next
  case (Cons e es)
  obtain book1 where "insertOrder book e book1" using insertOrder_returns by blast
  moreover obtain book' where "insertAll book1 es book'" using Cons.IH by blast
  ultimately show ?case using insertAll_Cons by blast
qed

lemma insertAll_mset:
  "insertAll book es book' \<Longrightarrow> mset (orders book') = mset (orders book) + mset es"
  by (induction rule: insertAll.induct) (simp_all add: insertOrder_mset)

lemma insertAll_sorted:
  "insertAll book es book' \<Longrightarrow> es \<noteq> [] \<or> sorted (map timestamp (orders book)) \<Longrightarrow>
   sorted (map timestamp (orders book'))"
proof (induction rule: insertAll.induct)
  case (insertAll_Nil book)
  then show ?case by simp
next
  case (insertAll_Cons book e book1 es book')
  from insertAll_Cons.hyps(1) have "sorted (map timestamp (orders book1))"
    by (rule insertOrder_sorted)
  then show ?case using insertAll_Cons.IH by simp
qed

text \<open>
  C7 (amended): a sequence of \<open>insertOrder\<close> calls returns, and after it (after at least
  one call, or from a sorted store) the stored sequence is sorted non-decreasing by
  timestamp, holds exactly the records it held before and the inserted ones, and
  \<open>getOrders\<close> with the type, product and timestamp of any of them returns it. The order
  among records of equal timestamp is whatever \<open>std::sort\<close> leaves.
\<close>

theorem insert_keeps_sorted:
  assumes "es \<noteq> [] \<or> sorted (map timestamp (orders book))"
  shows "(\<exists>book'. insertAll book es book') \<and>
         (\<forall>book'. insertAll book es book' \<longrightarrow>
            sorted (map timestamp (orders book')) \<and>
            mset (orders book') = mset (orders book) + mset es \<and>
            (\<forall>e\<in>set (orders book) \<union> set es.
               e \<in> set (getOrders book' (orderType e) (product' e) (timestamp e))))"
proof (intro conjI allI impI)
  show "\<exists>book'. insertAll book es book'" by (rule insertAll_returns)
next
  fix book' assume h: "insertAll book es book'"
  show "sorted (map timestamp (orders book'))" using h assms by (rule insertAll_sorted)
  show m: "mset (orders book') = mset (orders book) + mset es" using h by (rule insertAll_mset)
  have "set_mset (mset (orders book')) = set_mset (mset (orders book) + mset es)"
    using m by simp
  then have "set (orders book') = set (orders book) \<union> set es" by simp
  then show "\<forall>e\<in>set (orders book) \<union> set es.
      e \<in> set (getOrders book' (orderType e) (product' e) (timestamp e))"
    by (simp add: getOrders_def)
qed

lemma insert_book7: "insertOrder book7 e7b book7ab"
  by (simp add: insertOrder_def std_sort_def book7_def book7ab_def compareByTimestamp_def
      e7a_def e7b_def mkEntry_def)

theorem insert_keeps_sorted_witness:
  "insertAll book7 [e7b] book7ab \<and>
   sorted (map timestamp (orders book7ab)) \<and>
   mset (orders book7ab) = {#e7a, e7b#} \<and>
   getOrders book7ab ask ''p'' ''t'' = [e7a, e7b]"
proof -
  have ia: "insertAll book7 [e7b] book7ab"
    using insert_book7 insertAll_Nil insertAll_Cons by blast
  have "[e7b] \<noteq> [] \<or> sorted (map timestamp (orders book7))" by simp
  from insert_keeps_sorted [OF this] ia
  have "sorted (map timestamp (orders book7ab))"
    "mset (orders book7ab) = mset (orders book7) + mset [e7b]" by blast+
  moreover have "getOrders book7ab ask ''p'' ''t'' = [e7a, e7b]"
    by (simp add: getOrders_def book7ab_def e7a_def e7b_def mkEntry_def)
  ultimately show ?thesis using ia by (simp add: book7_def)
qed

lemma sorted_one_timestamp:
  "\<forall>e\<in>set es. timestamp e = t \<Longrightarrow> sorted_wrt (\<lambda>x y. \<not> compareByTimestamp y x) es"
  by (induction es) (auto simp: compareByTimestamp_def)

lemma rec17_inj: "rec17 i = rec17 j \<longleftrightarrow> i = j"
  by (auto simp: rec17_def mkEntry_def)

lemma filter_rec17: "filter (\<lambda>e. timestamp e = ''t'') (map rec17 is) = map rec17 is"
  by (induction "is") (simp_all add: rec17_def mkEntry_def)

lemma mset_17:
  "mset [8, 16, 15, 14, 13, 12, 11, 10, 9, 0, 7, 6, 5, 4, 3, 2, 1::nat] =
   mset ([0, 1, 2, 3, 4, 5, 6, 7, 8, 9, 10, 11, 12, 13, 14, 15] @ [16])"
  by simp

lemma insert_book16: "insertOrder book16 (rec17 16) book17"
proof -
  have "mset (map rec17 [8, 16, 15, 14, 13, 12, 11, 10, 9, 0, 7, 6, 5, 4, 3, 2, 1]) =
      mset (map rec17 ([0, 1, 2, 3, 4, 5, 6, 7, 8, 9, 10, 11, 12, 13, 14, 15] @ [16]))"
    using mset_17 by (metis mset_map)
  then have m: "mset (orders book17) = mset (orders book16 @ [rec17 16])"
    by (simp add: book16_def book17_def)
  have "\<forall>e\<in>set (orders book17). timestamp e = ''t''"
    by (simp add: book17_def rec17_def mkEntry_def)
  then have "sorted_wrt (\<lambda>x y. \<not> compareByTimestamp y x) (orders book17)"
    by (rule sorted_one_timestamp)
  with m show ?thesis by (simp add: insertOrder_def std_sort_def)
qed

text \<open>
  C7 as stated fails: ties are not broken by insertion order. When a seventeenth record
  with the timestamp of the sixteen stored ones is inserted, the stored sequence that
  results (\<open>book17\<close>) is sorted and holds the same records, but it begins with the ninth
  record, followed by the inserted one: the records of the one timestamp do not stand in
  the order of their insertion.
\<close>

theorem insert_stable_counterexample:
  "insertOrder book16 (rec17 16) book17 \<and>
   sorted (map timestamp (orders book17)) \<and>
   set (map timestamp (orders book16 @ [rec17 16])) = {''t''} \<and>
   orders book16 @ [rec17 16] = map rec17 [0, 1, 2, 3, 4, 5, 6, 7, 8, 9, 10, 11, 12, 13, 14, 15, 16] \<and>
   orders book17 = map rec17 [8, 16, 15, 14, 13, 12, 11, 10, 9, 0, 7, 6, 5, 4, 3, 2, 1] \<and>
   \<not> keepsTieOrder_spec (orders book16 @ [rec17 16]) (orders book17)"
proof -
  have o: "orders book16 @ [rec17 16] = map rec17 [0, 1, 2, 3, 4, 5, 6, 7, 8, 9, 10, 11, 12, 13, 14, 15, 16]"
    "orders book17 = map rec17 [8, 16, 15, 14, 13, 12, 11, 10, 9, 0, 7, 6, 5, 4, 3, 2, 1]"
    by (simp_all add: book16_def book17_def)
  have "filter (\<lambda>e. timestamp e = ''t'') (orders book17) \<noteq>
        filter (\<lambda>e. timestamp e = ''t'') (orders book16 @ [rec17 16])"
    unfolding o filter_rec17 by (simp add: rec17_inj)
  then have k: "\<not> keepsTieOrder_spec (orders book16 @ [rec17 16]) (orders book17)"
    unfolding keepsTieOrder_spec_def by blast
  have s: "sorted (map timestamp (orders book17))"
    using insert_book16 by (rule insertOrder_sorted)
  have t: "set (map timestamp (orders book16 @ [rec17 16])) = {''t''}"
    unfolding o by (simp add: rec17_def mkEntry_def)
  from insert_book16 s t o k show ?thesis by blast
qed

section \<open>Analytics: candlesticks\<close>

lemma foldl_max:
  "foldl (\<lambda>maxPrice e. if price e > maxPrice then price e else maxPrice) m es =
   Max (insert m (price ` set es))"
proof (induction es arbitrary: m)
  case Nil
  show ?case by simp
next
  case (Cons e es)
  have "(if m < price e then price e else m) = max m (price e)" by (simp add: max_def)
  then have "Max (insert (if m < price e then price e else m) (price ` set es)) =
      Max (insert m (insert (price e) (price ` set es)))"
    by (cases "set es = {}") (simp_all add: max.assoc)
  then show ?case using Cons.IH by simp
qed

lemma foldl_min:
  "foldl (\<lambda>minPrice e. if price e < minPrice then price e else minPrice) m es =
   Min (insert m (price ` set es))"
proof (induction es arbitrary: m)
  case Nil
  show ?case by simp
next
  case (Cons e es)
  have "(if price e < m then price e else m) = min m (price e)" by (simp add: min_def)
  then have "Min (insert (if price e < m then price e else m) (price ` set es)) =
      Min (insert m (insert (price e) (price ` set es)))"
    by (cases "set es = {}") (simp_all add: min.assoc)
  then show ?case using Cons.IH by simp
qed

lemma getHighPrice_Max: "es \<noteq> [] \<Longrightarrow> getHighPrice es = Returns (Max (price ` set es))"
proof (cases es)
  case Nil
  assume "es \<noteq> []"
  with Nil show ?thesis by simp
next
  case (Cons e0 es')
  have "insert (price e0) (price ` set es) = price ` set es" using Cons by auto
  then show ?thesis unfolding getHighPrice_def foldl_max by (simp add: Cons)
qed

lemma getLowPrice_Min: "es \<noteq> [] \<Longrightarrow> getLowPrice es = Returns (Min (price ` set es))"
proof (cases es)
  case Nil
  assume "es \<noteq> []"
  with Nil show ?thesis by simp
next
  case (Cons e0 es')
  have "insert (price e0) (price ` set es) = price ` set es" using Cons by auto
  then show ?thesis unfolding getLowPrice_def foldl_min by (simp add: Cons)
qed

lemma foldl_totals:
  "foldl (\<lambda>(totVal, totAmt) e.
            (dadd totVal (dmul (Fin (price e)) (amount e)), dadd totAmt (amount e))) (v, a) es =
   (foldl dadd v (map (\<lambda>e. dmul (Fin (price e)) (amount e)) es),
    foldl dadd a (map (\<lambda>e. amount e) es))"
  by (induction es arbitrary: v a) simp_all

lemma candleStep_empty:
  "getOrders book side pr ts = [] \<Longrightarrow>
   candleStep book side pr (Returns (cs, pc)) ts = Returns (cs, pc)"
  by (simp add: candleStep_def)

lemma candleStep_nonempty:
  "getOrders book side pr ts \<noteq> [] \<Longrightarrow>
   candleStep book side pr (Returns (cs, pc)) ts =
     Returns (cs @ [candleAt book side pr
                      (if cs = [] then vwap_spec (getOrders book side pr ts) else pc) ts],
              vwap_spec (getOrders book side pr ts))"
  by (simp add: candleStep_def getHighPrice_Max getLowPrice_Min foldl_totals candleAt_def
      vwap_spec_def dsum_def Let_def)

lemma candle_loop:
  "\<exists>pc'. foldl (candleStep book side pr) (Returns (cs, pc)) stamps =
     Returns (cs @ chain book side pr (if cs = [] then None else Some pc)
                     (filter (\<lambda>ts. getOrders book side pr ts \<noteq> []) stamps), pc')"
proof (induction stamps arbitrary: cs pc)
  case Nil
  show ?case by simp
next
  case (Cons t ts)
  show ?case
  proof (cases "getOrders book side pr t = []")
    case True
    then show ?thesis using Cons.IH [of cs pc] by (simp add: candleStep_empty)
  next
    case False
    let ?c = "vwap_spec (getOrders book side pr t)"
    let ?k = "candleAt book side pr (if cs = [] then ?c else pc) t"
    from Cons.IH [of "cs @ [?k]" ?c] obtain pc' where
      "foldl (candleStep book side pr) (Returns (cs @ [?k], ?c)) ts =
        Returns ((cs @ [?k]) @ chain book side pr (Some ?c)
                     (filter (\<lambda>ts. getOrders book side pr ts \<noteq> []) ts), pc')"
      by auto
    then show ?thesis using False by (auto simp: candleStep_nonempty)
  qed
qed

lemma chain_index:
  "chain book side pr prev ems =
     map (\<lambda>i. candleAt book side pr
            (if i = 0 then (case prev of None \<Rightarrow> vwap_spec (getOrders book side pr (ems ! 0)) | Some p \<Rightarrow> p)
             else vwap_spec (getOrders book side pr (ems ! (i - 1))))
            (ems ! i))
       [0..<length ems]"
proof (induction ems arbitrary: prev)
  case Nil
  show ?case by simp
next
  case (Cons t ts)
  have "map (\<lambda>i. candleAt book side pr
            (if i = 0 then (case prev of None \<Rightarrow> vwap_spec (getOrders book side pr ((t # ts) ! 0)) | Some p \<Rightarrow> p)
             else vwap_spec (getOrders book side pr ((t # ts) ! (i - 1))))
            ((t # ts) ! i)) [0..<length (t # ts)] =
      candleAt book side pr (case prev of None \<Rightarrow> vwap_spec (getOrders book side pr t) | Some p \<Rightarrow> p) t #
      map (\<lambda>i. candleAt book side pr
            (if i = 0 then vwap_spec (getOrders book side pr t)
             else vwap_spec (getOrders book side pr (ts ! (i - 1))))
            (ts ! i)) [0..<length ts]"
    by (simp add: upt_conv_Cons map_Suc_upt [symmetric] nth_Cons' del: upt_Suc split: option.split)
  then show ?case using Cons.IH [of "Some (vwap_spec (getOrders book side pr t))"] by simp
qed

lemma getCandlestickData_spec:
  "getCandlestickData files book side pr =
     Returns (candlesticks_spec (getAllTimestamps files) book side pr)"
proof -
  obtain pc' where
    "foldl (candleStep book side pr) (Returns ([], Fin 0)) (getAllTimestamps files) =
       Returns (chain book side pr None
          (filter (\<lambda>ts. getOrders book side pr ts \<noteq> []) (getAllTimestamps files)), pc')"
    using candle_loop [of book side pr "[]" "Fin 0" "getAllTimestamps files"] by auto
  then show ?thesis
    by (simp add: getCandlestickData_def candlesticks_spec_def chain_index candleAt_def Let_def)
qed

lemma uniq_dom:
  "dom (RBT.lookup (foldl (\<lambda>uniq e. RBT.insert (timestamp e) () uniq) m es)) =
   dom (RBT.lookup m) \<union> timestamp ` set es"
  by (induction es arbitrary: m) auto

lemma uniq_files_dom:
  "dom (RBT.lookup (foldl (\<lambda>uniq entries. foldl (\<lambda>uniq e. RBT.insert (timestamp e) () uniq) uniq entries) m files)) =
   dom (RBT.lookup m) \<union> (\<Union>es\<in>set files. timestamp ` set es)"
  by (induction files arbitrary: m) (auto simp: uniq_dom)

lemma getAllTimestamps_set:
  "set (getAllTimestamps files) = (\<Union>es\<in>set files. timestamp ` set es)"
  by (simp add: getAllTimestamps_def RBT.lookup_keys [symmetric] uniq_files_dom)

lemma getAllTimestamps_constructed:
  assumes "OrderBook_ctor march june book"
  shows "set (getAllTimestamps [march, june]) = storedTimes book"
proof -
  from assms have "mset (orders book) = mset (march @ june)"
    by (simp add: OrderBook_ctor_def std_sort_def)
  then have "set (orders book) = set march \<union> set june"
    by (metis mset_eq_setD set_append)
  then show ?thesis by (auto simp: getAllTimestamps_set storedTimes_def)
qed

lemma getAllTimestamps_sorted: "sorted_wrt (<) (getAllTimestamps files)"
proof -
  have "sorted (getAllTimestamps files)" "distinct (getAllTimestamps files)"
    by (simp_all add: getAllTimestamps_def)
  then show ?thesis by (simp add: strict_sorted_iff)
qed

lemma getAllTimestamps_unique:
  assumes "sorted_wrt (<) xs" and "set xs = (\<Union>es\<in>set files. timestamp ` set es)"
  shows "getAllTimestamps files = xs"
proof (rule sorted_distinct_set_unique)
  show "sorted (getAllTimestamps files)" "distinct (getAllTimestamps files)"
    using getAllTimestamps_sorted [of files] by (simp_all add: strict_sorted_iff)
  show "sorted xs" "distinct xs" using assms(1) by (simp_all add: strict_sorted_iff)
  show "set (getAllTimestamps files) = set xs" using assms(2) by (simp add: getAllTimestamps_set)
qed

lemma candlesticks_spec_timestamps:
  "map timestampC (candlesticks_spec stamps book side pr) =
   filter (\<lambda>ts. getOrders book side pr ts \<noteq> []) stamps"
  by (simp add: candlesticks_spec_def Let_def o_def map_nth)

text \<open>
  The timeline the candles run over. \<^verbatim>\<open>getAllTimestamps\<close> reads the two files the store
  was constructed from, and the driver inserts orders only at timestamps of the store, so
  the timestamps of the files are those of the store.
\<close>

lemma insertAll_storedTimes:
  assumes "insertAll book0 es book" and "\<forall>e\<in>set es. timestamp e \<in> storedTimes book0"
  shows "storedTimes book = storedTimes book0"
proof -
  have "set_mset (mset (orders book)) = set_mset (mset (orders book0) + mset es)"
    using insertAll_mset [OF assms(1)] by simp
  then have "set (orders book) = set (orders book0) \<union> set es" by simp
  then show ?thesis using assms(2) by (auto simp: storedTimes_def)
qed

lemma getAllTimestamps_timeline:
  assumes "OrderBook_ctor march june book0" and "insertAll book0 es book"
    and "\<forall>e\<in>set es. timestamp e \<in> storedTimes book0"
  shows "getAllTimestamps [march, june] = timeline book"
proof (rule getAllTimestamps_unique)
  show "sorted_wrt (<) (timeline book)" by (rule timeline_props)
  have "set (timeline book) = storedTimes book0"
    using insertAll_storedTimes [OF assms(2,3)] by (simp add: timeline_props)
  also have "\<dots> = set (getAllTimestamps [march, june])"
    using getAllTimestamps_constructed [OF assms(1)] by simp
  finally show "set (timeline book) = (\<Union>es\<in>set [march, june]. timestamp ` set es)"
    by (simp only: getAllTimestamps_set)
qed


lemmas ex8_defs = e8a_def e8b_def e8c_def e8d_def e8e_def mkEntry_def

lemma ctor_book8: "OrderBook_ctor march8 june8 book8"
  by (simp add: OrderBook_ctor_def std_sort_def march8_def june8_def book8_def ex8_defs)

lemma insert_book8: "insertAll book8 [e8e] book8e"
proof -
  have "insertOrder book8 e8e book8e"
    by (simp add: insertOrder_def std_sort_def book8_def book8e_def compareByTimestamp_def ex8_defs)
  then show ?thesis using insertAll_Nil insertAll_Cons by blast
qed

lemma stamps_book8: "\<forall>e\<in>set [e8e]. timestamp e \<in> storedTimes book8"
  by (simp add: storedTimes_def book8_def ex8_defs)

lemma getAllTimestamps_files8: "getAllTimestamps [march8, june8] = [''1'', ''2'', ''3'']"
  by (rule getAllTimestamps_unique) (auto simp: march8_def june8_def ex8_defs)

lemma getOrders_book8e:
  "getOrders book8e ask ''p'' ''1'' = [e8a, e8b]"
  "getOrders book8e ask ''p'' ''2'' = [e8e]"
  "getOrders book8e ask ''p'' ''3'' = [e8d]"
  by (simp_all add: getOrders_def book8e_def ex8_defs)

lemma vwap_book8e:
  "vwap_spec [e8a, e8b] = Fin (35 / 2)" "vwap_spec [e8e] = Fin 40" "vwap_spec [e8d] = Fin 30"
  using fl_35_halves by (simp_all add: vwap_spec_def dsum_def ex8_defs fl_numeral)

lemma candlesticks_spec_book8e:
  "candlesticks_spec [''1'', ''2'', ''3''] book8e ask ''p'' = [candle8a, candle8b, candle8c]"
proof -
  have u: "[0..<3] = [0, 1, 2]" by (simp add: upt_conv_Cons)
  have p: "price ` set [e8a, e8b] = {10, 20}" "price ` set [e8e] = {40}" "price ` set [e8d] = {30}"
    by (simp_all add: ex8_defs)
  show ?thesis
    unfolding candlesticks_spec_def Let_def
    by (simp add: getOrders_book8e u vwap_book8e p candle8a_def candle8b_def candle8c_def
        del: set_simps)
qed


section \<open>Analytics: the close is between low and high\<close>

lemma candlesticks_spec_mem:
  assumes "c \<in> set (candlesticks_spec stamps book side pr)"
  shows "getOrders book side pr (timestampC c) \<noteq> [] \<and>
         highC c = Fin (Max (price ` set (getOrders book side pr (timestampC c)))) \<and>
         lowC c = Fin (Min (price ` set (getOrders book side pr (timestampC c)))) \<and>
         closeC c = vwap_spec (getOrders book side pr (timestampC c))"
proof -
  let ?em = "filter (\<lambda>ts. getOrders book side pr ts \<noteq> []) stamps"
  from assms obtain i where i: "i < length ?em"
    and c: "timestampC c = ?em ! i"
       "highC c = Fin (Max (price ` set (getOrders book side pr (?em ! i))))"
       "lowC c = Fin (Min (price ` set (getOrders book side pr (?em ! i))))"
       "closeC c = vwap_spec (getOrders book side pr (?em ! i))"
    by (auto simp: candlesticks_spec_def Let_def)
  from i have "?em ! i \<in> set ?em" by (rule nth_mem)
  then have "getOrders book side pr (?em ! i) \<noteq> []" by simp
  with c show ?thesis by simp
qed

lemma nonneg_val: "nonneg es \<Longrightarrow> e \<in> set es \<Longrightarrow> 0 \<le> val (amount e)"
  unfolding nonneg_def by (cases "amount e") auto

lemma weighted_lower:
  "\<forall>e\<in>set es. lo \<le> price e \<and> 0 \<le> val (amount e) \<Longrightarrow>
   lo * (\<Sum>e\<leftarrow>es. val (amount e)) \<le> (\<Sum>e\<leftarrow>es. price e * val (amount e))"
proof (induction es)
  case Nil
  show ?case by simp
next
  case (Cons e es)
  then have "lo * val (amount e) \<le> price e * val (amount e)" by (simp add: mult_right_mono)
  moreover have "lo * (\<Sum>e\<leftarrow>es. val (amount e)) \<le> (\<Sum>e\<leftarrow>es. price e * val (amount e))"
    using Cons by simp
  ultimately show ?case by (simp add: algebra_simps)
qed

lemma weighted_upper:
  "\<forall>e\<in>set es. price e \<le> hi \<and> 0 \<le> val (amount e) \<Longrightarrow>
   (\<Sum>e\<leftarrow>es. price e * val (amount e)) \<le> hi * (\<Sum>e\<leftarrow>es. val (amount e))"
proof (induction es)
  case Nil
  show ?case by simp
next
  case (Cons e es)
  then have "price e * val (amount e) \<le> hi * val (amount e)" by (simp add: mult_right_mono)
  moreover have "(\<Sum>e\<leftarrow>es. price e * val (amount e)) \<le> hi * (\<Sum>e\<leftarrow>es. val (amount e))"
    using Cons by simp
  ultimately show ?case by (simp add: algebra_simps)
qed

text \<open>
  When the two sums are exact and the amounts do not sum to 0, the close is the quotient
  of the sums of the numbers, rounded to the nearest double.
\<close>

lemma vwap_spec_exact:
  assumes "exactSums es" and "(\<Sum>e\<leftarrow>es. val (amount e)) \<noteq> 0"
  shows "vwap_spec es = fl ((\<Sum>e\<leftarrow>es. price e * val (amount e)) / (\<Sum>e\<leftarrow>es. val (amount e)))"
  using assms by (simp add: vwap_spec_def exactSums_def)

text \<open>
  That quotient lies between the least and the greatest price; rounding is monotonic,
  and the two prices are doubles, which rounding leaves where they are.
\<close>

lemma vwap_bounded:
  assumes "nonneg es" and "\<forall>e\<in>set es. isDouble (price e)" and "exactSums es"
    and "0 < totalAmount es"
  shows "dle (Fin (Min (price ` set es))) (vwap_spec es) \<and>
         dle (vwap_spec es) (Fin (Max (price ` set es)))"
proof -
  let ?A = "\<Sum>e\<leftarrow>es. val (amount e)" and ?V = "\<Sum>e\<leftarrow>es. price e * val (amount e)"
  let ?lo = "Min (price ` set es)" and ?hi = "Max (price ` set es)"
  have A: "0 < ?A" using assms(4) by (simp add: totalAmount_def)
  have ne: "es \<noteq> []" using assms(4) by auto
  have "\<forall>e\<in>set es. ?lo \<le> price e \<and> 0 \<le> val (amount e)"
    using nonneg_val [OF assms(1)] by simp
  then have lo: "?lo * ?A \<le> ?V" by (rule weighted_lower)
  have "\<forall>e\<in>set es. price e \<le> ?hi \<and> 0 \<le> val (amount e)"
    using nonneg_val [OF assms(1)] by simp
  then have hi: "?V \<le> ?hi * ?A" by (rule weighted_upper)
  from lo hi A have q: "?lo \<le> ?V / ?A" "?V / ?A \<le> ?hi"
    by (simp_all add: pos_le_divide_eq pos_divide_le_eq)
  have "?lo \<in> price ` set es" "?hi \<in> price ` set es" using ne by simp_all
  then have d: "fl ?lo = Fin ?lo" "fl ?hi = Fin ?hi"
    using assms(2) by (auto simp: isDouble_def)
  have c: "vwap_spec es = fl (?V / ?A)"
    using assms(3) A by (intro vwap_spec_exact) simp_all
  show ?thesis
    using fl_mono [OF q(1)] fl_mono [OF q(2)] unfolding c d by simp
qed

lemma natSums_nonneg:
  assumes "\<forall>e\<in>set es. \<exists>m n::nat. price e = real m \<and> amount e = Fin (real n)"
  shows "0 \<le> (\<Sum>e\<leftarrow>es. price e * val (amount e))" and "0 \<le> (\<Sum>e\<leftarrow>es. val (amount e))"
proof -
  have "\<forall>e\<in>set es. 0 \<le> price e * val (amount e) \<and> 0 \<le> val (amount e)"
    using assms by fastforce
  then show "0 \<le> (\<Sum>e\<leftarrow>es. price e * val (amount e))" "0 \<le> (\<Sum>e\<leftarrow>es. val (amount e))"
    by (auto intro!: sum_list_nonneg)
qed

lemma totVal_nat:
  assumes "\<forall>e\<in>set es. \<exists>m n::nat. price e = real m \<and> amount e = Fin (real n)"
    and "real a + (\<Sum>e\<leftarrow>es. price e * val (amount e)) < 2 ^ 53"
  shows "foldl dadd (Fin (real a)) (map (\<lambda>e. dmul (Fin (price e)) (amount e)) es) =
         Fin (real a + (\<Sum>e\<leftarrow>es. price e * val (amount e)))"
  using assms
proof (induction es arbitrary: a)
  case Nil
  show ?case by simp
next
  case (Cons e es)
  from Cons.prems(1) obtain m n :: nat where e: "price e = real m" "amount e = Fin (real n)"
    by auto
  from Cons.prems(1) have rest: "\<forall>e\<in>set es. \<exists>m n::nat. price e = real m \<and> amount e = Fin (real n)"
    by simp
  have r0: "0 \<le> (\<Sum>e\<leftarrow>es. price e * val (amount e))" using rest by (rule natSums_nonneg)
  have b: "real (a + m * n) + (\<Sum>e\<leftarrow>es. price e * val (amount e)) < 2 ^ 53"
    using Cons.prems(2) e by simp
  then have "real (a + m * n) < 2 ^ 53" using r0 by linarith
  then have lt: "a + m * n < 2 ^ 53" by (metis of_nat_less_iff of_nat_numeral of_nat_power)
  then have "m * n < 2 ^ 53" by simp
  then have p: "fl (real m * real n) = Fin (real m * real n)" using fl_nat [of "m * n"] by simp
  have s: "fl (real a + real m * real n) = Fin (real a + real m * real n)"
    using fl_nat [OF lt] by simp
  have "foldl dadd (Fin (real a)) (map (\<lambda>e. dmul (Fin (price e)) (amount e)) (e # es)) =
      foldl dadd (Fin (real (a + m * n))) (map (\<lambda>e. dmul (Fin (price e)) (amount e)) es)"
    by (simp add: e p s)
  also have "\<dots> = Fin (real (a + m * n) + (\<Sum>e\<leftarrow>es. price e * val (amount e)))"
    using rest b by (rule Cons.IH)
  finally show ?case by (simp add: e)
qed

lemma totAmt_nat:
  assumes "\<forall>e\<in>set es. \<exists>m n::nat. price e = real m \<and> amount e = Fin (real n)"
    and "real a + (\<Sum>e\<leftarrow>es. val (amount e)) < 2 ^ 53"
  shows "foldl dadd (Fin (real a)) (map (\<lambda>e. amount e) es) =
         Fin (real a + (\<Sum>e\<leftarrow>es. val (amount e)))"
  using assms
proof (induction es arbitrary: a)
  case Nil
  show ?case by simp
next
  case (Cons e es)
  from Cons.prems(1) obtain m n :: nat where e: "price e = real m" "amount e = Fin (real n)"
    by auto
  from Cons.prems(1) have rest: "\<forall>e\<in>set es. \<exists>m n::nat. price e = real m \<and> amount e = Fin (real n)"
    by simp
  have r0: "0 \<le> (\<Sum>e\<leftarrow>es. val (amount e))" using rest by (rule natSums_nonneg)
  have b: "real (a + n) + (\<Sum>e\<leftarrow>es. val (amount e)) < 2 ^ 53"
    using Cons.prems(2) e by simp
  then have "real (a + n) < 2 ^ 53" using r0 by linarith
  then have lt: "a + n < 2 ^ 53" by (metis of_nat_less_iff of_nat_numeral of_nat_power)
  have s: "fl (real a + real n) = Fin (real a + real n)" using fl_nat [OF lt] by simp
  have "foldl dadd (Fin (real a)) (map (\<lambda>e. amount e) (e # es)) =
      foldl dadd (Fin (real (a + n))) (map (\<lambda>e. amount e) es)"
    by (simp add: e s)
  also have "\<dots> = Fin (real (a + n) + (\<Sum>e\<leftarrow>es. val (amount e)))"
    using rest b by (rule Cons.IH)
  finally show ?case by (simp add: e)
qed

text \<open>
  The sums are exact, for one, when the prices and the amounts are natural numbers and
  the two sums stay below \<open>2 ^ 53\<close>.
\<close>

lemma exactSums_nat:
  assumes "\<forall>e\<in>set es. \<exists>m n::nat. price e = real m \<and> amount e = Fin (real n)"
    and "(\<Sum>e\<leftarrow>es. price e * val (amount e)) < 2 ^ 53"
    and "(\<Sum>e\<leftarrow>es. val (amount e)) < 2 ^ 53"
  shows "exactSums es"
  using totVal_nat [OF assms(1), of 0] totAmt_nat [OF assms(1), of 0] assms(2,3)
  by (simp add: exactSums_def dsum_def)


lemma candles_book8e:
  "getCandlestickData [march8, june8] book8e ask ''p'' = Returns [candle8a, candle8b, candle8c]"
  by (simp add: getCandlestickData_spec getAllTimestamps_files8 candlesticks_spec_book8e)


lemma candles_book4: "getCandlestickData [[e4], []] book4 ask ''p'' = Returns [candle4]"
proof -
  have "getAllTimestamps [[e4], []] = [''t'']"
    by (rule getAllTimestamps_unique) (auto simp: e4_def mkEntry_def)
  moreover have "getOrders book4 ask ''p'' ''t'' = [e4]"
    by (simp add: getOrders_def book4_def e4_def mkEntry_def)
  moreover have "vwap_spec [e4] = NaN"
    by (simp add: vwap_spec_def dsum_def e4_def mkEntry_def)
  moreover have "price ` set [e4] = {5}" by (simp add: e4_def mkEntry_def)
  ultimately show ?thesis
    unfolding getCandlestickData_spec candlesticks_spec_def Let_def
    by (simp add: candle4_def del: set_simps)
qed

lemma vwap_book4r: "vwap_spec [e4a, e4b] = Fin (3 + 1 / 2 ^ 51)"
proof -
  have v1: "dadd (Fin 0) (dmul (Fin 3) (Fin (2 ^ 53))) = Fin (3 * 2 ^ 53)"
    using fl_3x2p53 by simp
  have v2: "dadd (Fin (3 * 2 ^ 53)) (dmul (Fin 3) (Fin 1)) = Fin (3 * 2 ^ 53 + 4)"
    using fl_3x2p53_plus_3 by (simp add: fl_numeral)
  have a1: "dadd (Fin 0) (Fin (2 ^ 53)) = Fin (2 ^ 53)"
    using fl_2p53 by simp
  have a2: "dadd (Fin (2 ^ 53)) (Fin 1) = Fin (2 ^ 53)"
    using fl_2p53_plus_1 by simp
  have q: "ddiv (Fin (3 * 2 ^ 53 + 4)) (Fin (2 ^ 53)) = Fin (3 + 1 / 2 ^ 51)"
    using fl_next_above_3 by simp
  have "dsum (map (\<lambda>e. dmul (Fin (price e)) (amount e)) [e4a, e4b]) = Fin (3 * 2 ^ 53 + 4)"
    unfolding dsum_def e4a_def e4b_def mkEntry_def using v1 v2 by simp
  moreover have "dsum (map (\<lambda>e. amount e) [e4a, e4b]) = Fin (2 ^ 53)"
    unfolding dsum_def e4a_def e4b_def mkEntry_def using a1 a2 by simp
  ultimately show ?thesis unfolding vwap_spec_def using q by simp
qed

lemma candles_book4r: "getCandlestickData [[e4a, e4b], []] book4r ask ''p'' = Returns [candle4r]"
proof -
  have "getAllTimestamps [[e4a, e4b], []] = [''t'']"
    by (rule getAllTimestamps_unique) (auto simp: e4a_def e4b_def mkEntry_def)
  moreover have "getOrders book4r ask ''p'' ''t'' = [e4a, e4b]"
    by (simp add: getOrders_def book4r_def e4a_def e4b_def mkEntry_def)
  moreover have "price ` set [e4a, e4b] = {3}" by (simp add: e4a_def e4b_def mkEntry_def)
  ultimately show ?thesis
    unfolding getCandlestickData_spec candlesticks_spec_def Let_def
    by (simp add: candle4r_def vwap_book4r del: set_simps)
qed


section \<open>Matching over the memory: the store is not written\<close>

lemma getOrdersH_props:
  "getOrdersH m ps ty pr ts = (v, m') \<Longrightarrow> \<forall>p\<in>set ps. p < nextAddr m \<Longrightarrow>
   map (cells m') v =
     filter (\<lambda>e. orderType e = ty \<and> product' e = pr \<and> timestamp e = ts) (map (cells m) ps) \<and>
   distinct v \<and> (\<forall>q\<in>set v. nextAddr m \<le> q \<and> q < nextAddr m') \<and> nextAddr m \<le> nextAddr m' \<and>
   (\<forall>x<nextAddr m. cells m' x = cells m x) \<and> ordersV m' = ordersV m"
proof (induction ps arbitrary: m v m')
  case Nil
  then show ?case by simp
next
  case (Cons p ps)
  let ?e = "cells m p"
  let ?P = "\<lambda>e. orderType e = ty \<and> product' e = pr \<and> timestamp e = ts"
  note h = Cons.prems(1) and lt = Cons.prems(2)
  show ?case
  proof (cases "?P ?e")
    case False
    with h have h': "getOrdersH m ps ty pr ts = (v, m')" by (simp add: Let_def)
    from lt have lt': "\<forall>x\<in>set ps. x < nextAddr m" by simp
    from Cons.IH [OF h' lt'] False show ?thesis by simp
  next
    case True
    let ?m1 = "m\<lparr>cells := (cells m)(nextAddr m := ?e), nextAddr := Suc (nextAddr m)\<rparr>"
    obtain v' where h': "getOrdersH ?m1 ps ty pr ts = (v', m')" and v: "v = nextAddr m # v'"
      using h True by (auto simp: Let_def push_back_def split: prod.splits)
    from lt have lt': "\<forall>x\<in>set ps. x < nextAddr ?m1" by auto
    note IH = Cons.IH [OF h' lt']
    have eq1: "map (cells ?m1) ps = map (cells m) ps" using lt by (intro map_cong) auto
    have tl: "map (cells m') v' = filter ?P (map (cells m) ps)"
      using IH [THEN conjunct1] unfolding eq1 .
    have fr: "\<forall>x<nextAddr ?m1. cells m' x = cells ?m1 x" using IH by blast
    then have "cells m' (nextAddr m) = ?e" by simp
    then have "map (cells m') v = filter ?P (map (cells m) (p # ps))"
      using tl True v by simp
    moreover have "distinct v" using IH v by auto
    moreover have "\<forall>q\<in>set v. nextAddr m \<le> q \<and> q < nextAddr m'" using IH v by auto
    moreover have "nextAddr m \<le> nextAddr m'" using IH by simp
    moreover have "\<forall>x<nextAddr m. cells m' x = cells m x" using fr by auto
    moreover have "ordersV m' = ordersV m" using IH by simp
    ultimately show ?thesis by blast
  qed
qed


lemma setAmount_simps [simp]:
  "cells (setAmount m p x) q = (if q = p then (cells m p)\<lparr>amount := x\<rparr> else cells m q)"
  "nextAddr (setAmount m p x) = nextAddr m"
  "ordersV (setAmount m p x) = ordersV m"
  by (simp_all add: setAmount_def)

lemma map_cells_setAmount [simp]:
  "p \<notin> set ps \<Longrightarrow> map (cells (setAmount m p x)) ps = map (cells m) ps"
  by (induction ps) auto

lemma scanBidsH_sim:
  "pa \<notin> set pbs \<Longrightarrow> distinct pbs \<Longrightarrow> scanBidsH pr ts pa pbs m = (m', sales) \<Longrightarrow>
   scanBids pr ts (cells m pa) (map (cells m) pbs) = (cells m' pa, map (cells m') pbs, sales) \<and>
   (\<forall>p. p \<noteq> pa \<and> p \<notin> set pbs \<longrightarrow> cells m' p = cells m p) \<and>
   nextAddr m' = nextAddr m \<and> ordersV m' = ordersV m"
proof (induction pbs arbitrary: m m' sales)
  case Nil
  then show ?case by simp
next
  case (Cons pb pbs)
  let ?a = "cells m pa" and ?b = "cells m pb"
  from Cons.prems have ne: "pa \<noteq> pb" and pa: "pa \<notin> set pbs" and pb: "pb \<notin> set pbs"
    and d: "distinct pbs" by auto
  note h = Cons.prems(3)
  consider (eq) "price ?a \<le> price ?b" "deq (amount ?b) (amount ?a)"
    | (gt) "price ?a \<le> price ?b" "\<not> deq (amount ?b) (amount ?a)" "dgt (amount ?b) (amount ?a)"
    | (lt) "price ?a \<le> price ?b" "\<not> deq (amount ?b) (amount ?a)" "\<not> dgt (amount ?b) (amount ?a)"
        "dgt (amount ?b) (Fin 0)"
    | (low) "\<not> price ?a \<le> price ?b"
    | (drained) "price ?a \<le> price ?b" "\<not> deq (amount ?b) (amount ?a)"
        "\<not> dgt (amount ?b) (amount ?a)" "\<not> dgt (amount ?b) (Fin 0)"
    by blast
  then show ?case
  proof cases
    case eq
    with h have "m' = setAmount m pb (Fin 0)" "sales = [(newSale pr ts ?a ?b)\<lparr>amount := amount ?a\<rparr>]"
      by (simp_all add: Let_def)
    with eq ne pb show ?thesis by simp
  next
    case gt
    with h have "m' = setAmount m pb (dsub (amount ?b) (amount ?a))"
      "sales = [(newSale pr ts ?a ?b)\<lparr>amount := amount ?a\<rparr>]"
      by (simp_all add: Let_def)
    with gt ne pb show ?thesis by simp
  next
    case lt
    let ?m2 = "setAmount (setAmount m pa (dsub (amount ?a) (amount ?b))) pb (Fin 0)"
    from h lt obtain sales' where
      r: "scanBidsH pr ts pa pbs ?m2 = (m', sales')" and
      s: "sales = (newSale pr ts ?a ?b)\<lparr>amount := amount ?b\<rparr> # sales'"
      by (auto simp: Let_def split: prod.splits)
    note IH = Cons.IH [OF pa d r]
    have c2: "cells ?m2 pa = ?a\<lparr>amount := dsub (amount ?a) (amount ?b)\<rparr>" using ne by simp
    have m2: "map (cells ?m2) pbs = map (cells m) pbs" using pa pb by simp
    have fr0: "cells m' p = cells ?m2 p" if "p \<noteq> pa" "p \<notin> set pbs" for p
      using IH that by simp
    have "cells m' pb = cells ?m2 pb" using ne pb by (intro fr0) auto
    then have cb: "cells m' pb = ?b\<lparr>amount := Fin 0\<rparr>" using ne by simp
    have sb: "scanBids pr ts (?a\<lparr>amount := dsub (amount ?a) (amount ?b)\<rparr>) (map (cells m) pbs) =
        (cells m' pa, map (cells m') pbs, sales')"
      using IH [THEN conjunct1] unfolding c2 m2 .
    have fr: "\<forall>p. p \<noteq> pa \<and> p \<notin> set (pb # pbs) \<longrightarrow> cells m' p = cells m p"
    proof (intro allI impI)
      fix p assume p: "p \<noteq> pa \<and> p \<notin> set (pb # pbs)"
      then have "cells m' p = cells ?m2 p" by (intro fr0) auto
      with p show "cells m' p = cells m p" by simp
    qed
    from sb cb s lt fr IH show ?thesis by simp
  next
    case low
    with h have r: "scanBidsH pr ts pa pbs m = (m', sales)" by (simp add: Let_def)
    note IH = Cons.IH [OF pa d r]
    have fr0: "cells m' p = cells m p" if "p \<noteq> pa" "p \<notin> set pbs" for p
      using IH that by simp
    have cb: "cells m' pb = ?b" using ne pb by (intro fr0) auto
    from low IH cb show ?thesis by simp
  next
    case drained
    with h have r: "scanBidsH pr ts pa pbs m = (m', sales)" by (simp add: Let_def)
    note IH = Cons.IH [OF pa d r]
    have fr0: "cells m' p = cells m p" if "p \<noteq> pa" "p \<notin> set pbs" for p
      using IH that by simp
    have cb: "cells m' pb = ?b" using ne pb by (intro fr0) auto
    from drained IH cb show ?thesis by simp
  qed
qed

lemma matchLoopH_sim:
  "distinct pas \<Longrightarrow> distinct pbs \<Longrightarrow> set pas \<inter> set pbs = {} \<Longrightarrow>
   matchLoopH pr ts pas pbs m = (m', sales) \<Longrightarrow>
   matchLoop pr ts (map (cells m) pas) (map (cells m) pbs) =
     (map (cells m') pas, map (cells m') pbs, sales) \<and>
   (\<forall>p. p \<notin> set pas \<and> p \<notin> set pbs \<longrightarrow> cells m' p = cells m p) \<and>
   nextAddr m' = nextAddr m \<and> ordersV m' = ordersV m"
proof (induction pas arbitrary: m m' sales)
  case Nil
  then show ?case by simp
next
  case (Cons pa pas)
  from Cons.prems have pa: "pa \<notin> set pas" "pa \<notin> set pbs" and d: "distinct pas" "distinct pbs"
    and dj: "set pas \<inter> set pbs = {}" by auto
  obtain m1 s1 where r1: "scanBidsH pr ts pa pbs m = (m1, s1)"
    by (cases "scanBidsH pr ts pa pbs m") auto
  obtain s2 where r2: "matchLoopH pr ts pas pbs m1 = (m', s2)" and s: "sales = s1 @ s2"
    using Cons.prems(4) r1 by (auto split: prod.splits)
  note S = scanBidsH_sim [OF pa(2) d(2) r1]
  note IH = Cons.IH [OF d dj r2]
  have m1: "map (cells m1) pas = map (cells m) pas"
  proof (rule map_cong [OF refl])
    fix x assume "x \<in> set pas"
    then have "x \<noteq> pa" "x \<notin> set pbs" using pa(1) dj by auto
    then show "cells m1 x = cells m x" using S by simp
  qed
  have fr1: "cells m' p = cells m1 p" if "p \<notin> set pas" "p \<notin> set pbs" for p
    using IH that by simp
  have fr2: "cells m1 p = cells m p" if "p \<noteq> pa" "p \<notin> set pbs" for p
    using S that by simp
  have pa': "cells m' pa = cells m1 pa" using pa by (intro fr1) auto
  have ml: "matchLoop pr ts (map (cells m) pas) (map (cells m1) pbs) =
      (map (cells m') pas, map (cells m') pbs, s2)"
    using IH [THEN conjunct1] unfolding m1 .
  have fr: "\<forall>p. p \<notin> set (pa # pas) \<and> p \<notin> set pbs \<longrightarrow> cells m' p = cells m p"
  proof (intro allI impI)
    fix p assume p: "p \<notin> set (pa # pas) \<and> p \<notin> set pbs"
    then have "cells m' p = cells m1 p" by (intro fr1) auto
    also have "\<dots> = cells m p" using p by (intro fr2) auto
    finally show "cells m' p = cells m p" .
  qed
  from S ml pa' s fr IH show ?case by simp
qed


lemma map_cells_below:
  "\<forall>x<n. cells m' x = cells m x \<Longrightarrow> \<forall>p\<in>set ps. p < n \<Longrightarrow> map (cells m') ps = map (cells m) ps"
  by (induction ps) auto

lemma map_cells_outside:
  "\<forall>p. p \<notin> set v \<longrightarrow> cells m' p = cells m p \<Longrightarrow> set ps \<inter> set v = {} \<Longrightarrow>
   map (cells m') ps = map (cells m) ps"
  by (induction ps) auto

lemma getOrders_bookOf:
  "getOrders (bookOf m) ty pr ts =
   filter (\<lambda>e. orderType e = ty \<and> product' e = pr \<and> timestamp e = ts) (map (cells m) (ordersV m))"
  by (simp add: getOrders_def bookOf_def)

lemma matchH_sound:
  assumes al: "allocated m" and run: "matchAsksToBidsH m pr ts (sales, m')"
  shows "ordersV m' = ordersV m \<and> (\<forall>p\<in>set (ordersV m). cells m' p = cells m p) \<and>
         matchAsksToBids (bookOf m) pr ts (sales, bookOf m)"
  using run
proof (cases rule: matchAsksToBidsH.cases)
  case (no_liquidityH asksV m1 bidsV)
  from al have lt: "\<forall>p\<in>set (ordersV m). p < nextAddr m" by (simp add: allocated_def)
  note A = getOrdersH_props [OF no_liquidityH(2) lt]
  from A lt have lt1: "\<forall>p\<in>set (ordersV m1). p < nextAddr m1" by auto
  note B = getOrdersH_props [OF no_liquidityH(3) lt1]
  have o1: "map (cells m1) (ordersV m) = map (cells m) (ordersV m)"
    using A lt by (intro map_cells_below [of "nextAddr m"]) auto
  have ga: "map (cells m1) asksV = getOrders (bookOf m) ask pr ts"
    using A by (simp add: getOrders_bookOf)
  have gb: "map (cells m') bidsV = getOrders (bookOf m) bid pr ts"
    using B A o1 by (simp add: getOrders_bookOf)
  have "getOrders (bookOf m) ask pr ts = [] \<or> getOrders (bookOf m) bid pr ts = []"
    using no_liquidityH(4) ga gb by (metis map_is_Nil_conv)
  then have "matchAsksToBids (bookOf m) pr ts ([], bookOf m)" by (rule no_liquidity)
  moreover have "cells m' p = cells m p" if p: "p \<in> set (ordersV m)" for p
  proof -
    have plt: "p < nextAddr m" using lt p by simp
    have "cells m' p = cells m1 p" using B A plt by simp
    also have "\<dots> = cells m p" using A plt by simp
    finally show ?thesis .
  qed
  ultimately show ?thesis using A B no_liquidityH(1) by simp
next
  case (matchedH asksV m1 bidsV m2 m3 m4)
  from al have lt: "\<forall>p\<in>set (ordersV m). p < nextAddr m" by (simp add: allocated_def)
  note A = getOrdersH_props [OF matchedH(1) lt]
  from A lt have lt1: "\<forall>p\<in>set (ordersV m1). p < nextAddr m1" by auto
  note B = getOrdersH_props [OF matchedH(2) lt1]
  have dA: "distinct asksV" and dB: "distinct bidsV" using A B by simp_all
  have rA: "\<forall>q\<in>set asksV. nextAddr m \<le> q \<and> q < nextAddr m1" using A by simp
  have rB: "\<forall>q\<in>set bidsV. nextAddr m1 \<le> q" using B by simp
  have dj: "set asksV \<inter> set bidsV = {}" using rA rB by fastforce
  have djO: "set (ordersV m) \<inter> set asksV = {}" "set (ordersV m) \<inter> set bidsV = {}"
    using lt rA rB A by fastforce+
  have o1: "map (cells m1) (ordersV m) = map (cells m) (ordersV m)"
    using A lt by (intro map_cells_below [of "nextAddr m"]) auto
  have a2: "map (cells m2) asksV = map (cells m1) asksV"
    using B rA by (intro map_cells_below [of "nextAddr m1"]) auto
  have ga: "map (cells m2) asksV = getOrders (bookOf m) ask pr ts"
    using A a2 by (simp add: getOrders_bookOf)
  have gb: "map (cells m2) bidsV = getOrders (bookOf m) bid pr ts"
    using B A o1 by (simp add: getOrders_bookOf)
  from matchedH(5) have s3: "nextAddr m3 = nextAddr m2" "ordersV m3 = ordersV m2"
    "\<forall>p. p \<notin> set asksV \<longrightarrow> cells m3 p = cells m2 p"
    "std_sort compareByPriceAsc (map (cells m2) asksV) (map (cells m3) asksV)"
    by (simp_all add: std_sortH_def)
  from matchedH(6) have s4: "nextAddr m4 = nextAddr m3" "ordersV m4 = ordersV m3"
    "\<forall>p. p \<notin> set bidsV \<longrightarrow> cells m4 p = cells m3 p"
    "std_sort compareByPriceDesc (map (cells m3) bidsV) (map (cells m4) bidsV)"
    by (simp_all add: std_sortH_def)
  have b3: "map (cells m3) bidsV = map (cells m2) bidsV"
    using s3(3) dj by (intro map_cells_outside [of asksV]) auto
  have a4: "map (cells m4) asksV = map (cells m3) asksV"
    using s4(3) dj by (intro map_cells_outside [of bidsV]) auto
  note L = matchLoopH_sim [OF dA dB dj matchedH(7)]
  have sa: "std_sort compareByPriceAsc (getOrders (bookOf m) ask pr ts) (map (cells m4) asksV)"
    using s3(4) unfolding ga a4 .
  have sb: "std_sort compareByPriceDesc (getOrders (bookOf m) bid pr ts) (map (cells m4) bidsV)"
    using s4(4) unfolding b3 gb .
  have ne: "getOrders (bookOf m) ask pr ts \<noteq> []" "getOrders (bookOf m) bid pr ts \<noteq> []"
    using ga gb matchedH(3,4) by (metis map_is_Nil_conv)+
  have rel: "matchAsksToBids (bookOf m) pr ts (sales, bookOf m)"
    using matched [OF ne sa sb L [THEN conjunct1]] .
  have frame: "cells m' p = cells m p" if p: "p \<in> set (ordersV m)" for p
  proof -
    have pa: "p \<notin> set asksV" and pb: "p \<notin> set bidsV" using djO p by auto
    have plt: "p < nextAddr m" using lt p by simp
    have "cells m' p = cells m4 p" using L pa pb by simp
    also have "\<dots> = cells m3 p" using s4(3) pb by simp
    also have "\<dots> = cells m2 p" using s3(3) pa by simp
    also have "\<dots> = cells m1 p" using B A plt by simp
    also have "\<dots> = cells m p" using A plt by simp
    finally show ?thesis .
  qed
  have "ordersV m' = ordersV m" using L s4(2) s3(2) A B by simp
  with rel frame show ?thesis by simp
qed


lemma std_sortH_exists:
  assumes "distinct v" and "std_sort cmp (map (cells m) v) es"
  shows "\<exists>m'. std_sortH cmp v m m'"
proof
  let ?c = "\<lambda>p. case map_of (zip v es) p of Some e \<Rightarrow> e | None \<Rightarrow> cells m p"
  let ?m' = "m\<lparr>cells := ?c\<rparr>"
  from assms(2) have "size (mset es) = size (mset (map (cells m) v))" by (simp add: std_sort_def)
  then have len: "length v = length es" by simp
  have "map ?c v = es"
  proof (rule nth_equalityI)
    show "length (map ?c v) = length es" using len by simp
    fix i assume "i < length (map ?c v)"
    then have i: "i < length es" using len by simp
    then show "map ?c v ! i = es ! i"
      using map_of_zip_nth [OF len assms(1) i] len by simp
  qed
  moreover have "?c p = cells m p" if "p \<notin> set v" for p
  proof -
    have "map_of (zip v es) p = None" using map_of_zip_is_None [OF len, of p] that by simp
    then show ?thesis by simp
  qed
  ultimately show "std_sortH cmp v m ?m'" using assms(2) by (simp add: std_sortH_def)
qed

lemma matchH_returns:
  assumes "allocated m"
  shows "\<exists>sales m'. matchAsksToBidsH m pr ts (sales, m')"
proof -
  from assms have lt: "\<forall>p\<in>set (ordersV m). p < nextAddr m" by (simp add: allocated_def)
  obtain asksV m1 where g1: "getOrdersH m (ordersV m) ask pr ts = (asksV, m1)"
    by (cases "getOrdersH m (ordersV m) ask pr ts") auto
  obtain bidsV m2 where g2: "getOrdersH m1 (ordersV m1) bid pr ts = (bidsV, m2)"
    by (cases "getOrdersH m1 (ordersV m1) bid pr ts") auto
  note A = getOrdersH_props [OF g1 lt]
  from A lt have lt1: "\<forall>p\<in>set (ordersV m1). p < nextAddr m1" by auto
  note B = getOrdersH_props [OF g2 lt1]
  show ?thesis
  proof (cases "asksV = [] \<or> bidsV = []")
    case True
    from no_liquidityH [OF g1 g2 True] show ?thesis by blast
  next
    case False
    obtain ea where "std_sort compareByPriceAsc (map (cells m2) asksV) ea"
      using std_sort_asc_exists by blast
    with A obtain m3 where s3: "std_sortH compareByPriceAsc asksV m2 m3"
      using std_sortH_exists by blast
    obtain eb where "std_sort compareByPriceDesc (map (cells m3) bidsV) eb"
      using std_sort_desc_exists by blast
    with B obtain m4 where s4: "std_sortH compareByPriceDesc bidsV m3 m4"
      using std_sortH_exists by blast
    obtain m5 sales where "matchLoopH pr ts asksV bidsV m4 = (m5, sales)"
      by (cases "matchLoopH pr ts asksV bidsV m4") auto
    with matchedH [OF g1 g2 _ _ s3 s4] False show ?thesis by blast
  qed
qed

text \<open>
  C8: from a memory whose book cells are in use, every call of \<open>matchAsksToBids\<close> returns,
  and leaves the order store as it was: the vector \<open>orders\<close> has the same cells, each with
  the same entry in every field (the amount included), so no record is added, removed or
  changed; the amounts the loops write are in cells of the vectors \<open>getOrders\<close> returned.
  The sales returned are those of the relation \<open>matchAsksToBids\<close> on the book.
\<close>

theorem match_store_unchanged:
  assumes "allocated m"
  shows "(\<exists>sales m'. matchAsksToBidsH m pr ts (sales, m')) \<and>
         (\<forall>sales m'. matchAsksToBidsH m pr ts (sales, m') \<longrightarrow>
            ordersV m' = ordersV m \<and>
            (\<forall>p\<in>set (ordersV m). cells m' p = cells m p) \<and>
            bookOf m' = bookOf m \<and>
            matchAsksToBids (bookOf m) pr ts (sales, bookOf m'))"
proof (intro conjI allI impI)
  show "\<exists>sales m'. matchAsksToBidsH m pr ts (sales, m')" using assms by (rule matchH_returns)
next
  fix sales m' assume run: "matchAsksToBidsH m pr ts (sales, m')"
  note S = matchH_sound [OF assms run]
  show "ordersV m' = ordersV m" using S by simp
  show fr: "\<forall>p\<in>set (ordersV m). cells m' p = cells m p" using S by simp
  show eq: "bookOf m' = bookOf m" using S by (simp add: bookOf_def)
  show "matchAsksToBids (bookOf m) pr ts (sales, bookOf m')" using S eq by simp
qed

lemma matchH_mem1:
  "matchAsksToBidsH mem1 ''ETH/BTC'' ''2020/03/17 10:00:00.000000'' ([sale1], mem1')"
proof -
  let ?pr = "''ETH/BTC''" and ?ts = "''2020/03/17 10:00:00.000000''"
  let ?m1 = "\<lparr>cells = (\<lambda>p. if p = 0 then ask1 else bid1)(2 := ask1), nextAddr = 3, ordersV = [0, 1]\<rparr>"
  let ?m2 = "\<lparr>cells = (\<lambda>p. if p = 0 then ask1 else bid1)(2 := ask1, 3 := bid1), nextAddr = 4,
              ordersV = [0, 1]\<rparr>"
  have g1: "getOrdersH mem1 (ordersV mem1) ask ?pr ?ts = ([2], ?m1)"
    by (simp add: mem1_def push_back_def ask1_def bid1_def mkEntry_def)
  have g2: "getOrdersH ?m1 (ordersV ?m1) bid ?pr ?ts = ([3], ?m2)"
    by (simp add: push_back_def ask1_def bid1_def mkEntry_def)
  have s3: "std_sortH compareByPriceAsc [2] ?m2 ?m2" by (simp add: std_sortH_def std_sort_def)
  have s4: "std_sortH compareByPriceDesc [3] ?m2 ?m2" by (simp add: std_sortH_def std_sort_def)
  have "cells (setAmount ?m2 3 (Fin 1)) = cells mem1'"
    by (rule ext) (simp add: mem1'_def)
  then have "setAmount ?m2 3 (Fin 1) = mem1'" by (simp add: setAmount_def mem1'_def)
  then have l: "matchLoopH ?pr ?ts [2] [3] ?m2 = (mem1', [sale1])"
    by (simp add: ask1_def bid1_def sale1_def mkEntry_def newSale_def)
  show ?thesis by (rule matchedH [OF g1 g2 _ _ s3 s4 l]) simp_all
qed

theorem match_store_unchanged_witness:
  "allocated mem1 \<and>
   matchAsksToBidsH mem1 ''ETH/BTC'' ''2020/03/17 10:00:00.000000'' ([sale1], mem1') \<and>
   cells mem1' 1 = bid1 \<and> amount (cells mem1' 1) = Fin 2 \<and> amount (cells mem1' 3) = Fin 1 \<and>
   bookOf mem1' = book1"
proof -
  have a: "allocated mem1" by (simp add: allocated_def mem1_def)
  from match_store_unchanged [OF a] matchH_mem1
  have "\<forall>p\<in>set (ordersV mem1). cells mem1' p = cells mem1 p" "bookOf mem1' = bookOf mem1"
    by blast+
  then have "cells mem1' 1 = bid1" "bookOf mem1' = book1"
    by (simp_all add: mem1_def bookOf_def book1_def)
  moreover have "amount (cells mem1' 3) = Fin 1" by (simp add: mem1'_def)
  moreover have "amount bid1 = Fin 2" by (simp add: bid1_def mkEntry_def)
  ultimately show ?thesis using a matchH_mem1 by simp
qed

end
